theory Spec2Isabelle
  imports Main "HOL-Library.Word" "HOL-Library.List_Lexorder" "HOL-Library.Sublist"
begin

text \<open>
  The add-on converts an IMDb session cookie, carried in the URL path as a base64url
  segment, into a Stremio catalog. Its request handler exists in two revisions:
  \<^item> version 2.4.0 (\<open>src/unnamed/part_000\<close>), with a genre filter and genre options
    in the manifest: \<open>handler\<close>, \<open>fetchImdbData\<close>, \<open>buildMeta\<close>,
    \<open>extractGenresFromData\<close>, \<open>parseExtrasFromPath\<close>;
  \<^item> version 2.0.0 (\<open>src/api/index.js\<close>), with a fixed catalog: \<open>handler0\<close>,
    \<open>scrape\<close>.
  The codec \<open>b64url\<close>, \<open>send\<close>, the path parsing and the meta route are the same
  in both and are modelled once.
\<close>

section \<open>JavaScript strings and buffers\<close>

text \<open>
  A JavaScript string is a sequence of UTF-16 code units; \<open>s.length\<close> counts code units.
  A Node \<open>Buffer\<close> is a sequence of bytes. String constants of the source are written
  \<open>js ''...''\<close>.
\<close>

type_synonym u16 = "16 word"
type_synonym jsstring = "u16 list"
type_synonym byte = "8 word"

definition js :: "string \<Rightarrow> jsstring" where
  "js s = map of_char s"

text \<open>A code unit and a byte from its number (\<open>String.fromCharCode\<close>, a buffer write).\<close>

definition fromCharCode :: "nat \<Rightarrow> u16" where
  "fromCharCode n = of_nat n"

definition toByte :: "nat \<Rightarrow> byte" where
  "toByte n = of_nat n"

text \<open>\<open>s.startsWith(p)\<close>, \<open>s.includes(c)\<close> for a one-character \<open>c\<close>, \<open>s.split(c)\<close>,
  \<open>xs.join(sep)\<close>, \<open>xs[i]\<close> (\<open>undefined\<close> out of range is \<open>None\<close>).\<close>

definition startsWith :: "jsstring \<Rightarrow> jsstring \<Rightarrow> bool" where
  "startsWith s p = prefix p s"

definition includesChar :: "jsstring \<Rightarrow> u16 \<Rightarrow> bool" where
  "includesChar s c = (c \<in> set s)"

fun split :: "u16 \<Rightarrow> jsstring \<Rightarrow> jsstring list" where
  "split c [] = [[]]"
| "split c (x # xs) =
     (if x = c then [] # split c xs
      else (case split c xs of [] \<Rightarrow> [[x]] | p # ps \<Rightarrow> (x # p) # ps))"

fun join :: "jsstring \<Rightarrow> jsstring list \<Rightarrow> jsstring" where
  "join sep [] = []"
| "join sep [x] = x"
| "join sep (x # y # ys) = x @ sep @ join sep (y # ys)"

definition at :: "'a list \<Rightarrow> nat \<Rightarrow> 'a option" where
  "at xs i = (if i < length xs then Some (xs ! i) else None)"

text \<open>\<open>s.replace(/c/g, d)\<close> for single characters \<open>c\<close>, \<open>d\<close>.\<close>

definition replaceAll :: "u16 \<Rightarrow> u16 \<Rightarrow> jsstring \<Rightarrow> jsstring" where
  "replaceAll c d s = map (\<lambda>x. if x = c then d else x) s"

text \<open>\<open>s.replace(/=+$/, '')\<close>: the trailing run of \<open>=\<close> is removed.\<close>

definition stripPadding :: "jsstring \<Rightarrow> jsstring" where
  "stripPadding s = rev (dropWhile (\<lambda>x. x = 61) (rev s))"

text \<open>\<open>s.replace(/\.json$/, '')\<close>.\<close>

definition stripJson :: "jsstring \<Rightarrow> jsstring" where
  "stripJson s = (if suffix (js ''.json'') s then take (length s - 5) s else s)"

subsection \<open>The runtime's encodings\<close>

text \<open>
  \<open>Buffer.from(s, 'utf8')\<close>: the UTF-8 encoding of the string; a surrogate pair is one
  code point of four bytes, a lone surrogate is encoded as U+FFFD (EF BF BD).
\<close>

definition utf8_cp :: "nat \<Rightarrow> nat list" where
  "utf8_cp cp =
     (if cp < 0x80 then [cp]
      else if cp < 0x800 then [0xC0 + cp div 64, 0x80 + cp mod 64]
      else if cp < 0x10000 then
        [0xE0 + cp div 4096, 0x80 + (cp div 64) mod 64, 0x80 + cp mod 64]
      else [0xF0 + cp div 262144, 0x80 + (cp div 4096) mod 64,
            0x80 + (cp div 64) mod 64, 0x80 + cp mod 64])"

definition isHigh :: "nat \<Rightarrow> bool" where
  "isHigh u = (0xD800 \<le> u \<and> u \<le> 0xDBFF)"

definition isLow :: "nat \<Rightarrow> bool" where
  "isLow u = (0xDC00 \<le> u \<and> u \<le> 0xDFFF)"

definition pair_cp :: "nat \<Rightarrow> nat \<Rightarrow> nat" where
  "pair_cp u l = 0x10000 + (u - 0xD800) * 1024 + (l - 0xDC00)"

fun utf8_units :: "nat list \<Rightarrow> nat list" where
  "utf8_units [] = []"
| "utf8_units [u] = (if isHigh u \<or> isLow u then [0xEF, 0xBF, 0xBD] else utf8_cp u)"
| "utf8_units (u # l # us) =
     (if isHigh u \<and> isLow l then
        utf8_cp (pair_cp u l) @ utf8_units us
      else if isHigh u \<or> isLow u then [0xEF, 0xBF, 0xBD] @ utf8_units (l # us)
      else utf8_cp u @ utf8_units (l # us))"

definition Buffer_from_utf8 :: "jsstring \<Rightarrow> byte list" where
  "Buffer_from_utf8 s = map toByte (utf8_units (map unat s))"

text \<open>
  \<open>buf.toString('utf8')\<close>: the UTF-8 decoder of the runtime. It never throws: every
  maximal ill-formed part is replaced by U+FFFD and decoding resumes at the offending
  byte. A code point above U+FFFF becomes a surrogate pair.
\<close>

definition cont :: "nat \<Rightarrow> bool" where
  "cont b = (0x80 \<le> b \<and> b \<le> 0xBF)"

definition cp_units :: "nat \<Rightarrow> jsstring" where
  "cp_units cp =
     (if cp < 0x10000 then [fromCharCode cp]
      else [fromCharCode (0xD800 + (cp - 0x10000) div 1024),
            fromCharCode (0xDC00 + (cp - 0x10000) mod 1024)])"

fun utf8_decode :: "nat list \<Rightarrow> jsstring" where
  "utf8_decode [] = []"
| "utf8_decode (b # bs) =
     (if b < 0x80 then fromCharCode b # utf8_decode bs
      else if 0xC2 \<le> b \<and> b \<le> 0xDF then
        (case bs of
           c # r \<Rightarrow>
             if cont c then cp_units ((b - 0xC0) * 64 + (c - 0x80)) @ utf8_decode r
             else 0xFFFD # utf8_decode bs
         | [] \<Rightarrow> [0xFFFD])
      else if 0xE0 \<le> b \<and> b \<le> 0xEF then
        (case bs of
           c # r \<Rightarrow>
             if (if b = 0xE0 then 0xA0 else 0x80) \<le> c \<and> c \<le> (if b = 0xED then 0x9F else 0xBF)
             then (case r of
                     d # r' \<Rightarrow>
                       if cont d then
                         cp_units ((b - 0xE0) * 4096 + (c - 0x80) * 64 + (d - 0x80))
                           @ utf8_decode r'
                       else 0xFFFD # utf8_decode r
                   | [] \<Rightarrow> [0xFFFD])
             else 0xFFFD # utf8_decode bs
         | [] \<Rightarrow> [0xFFFD])
      else if 0xF0 \<le> b \<and> b \<le> 0xF4 then
        (case bs of
           c # r \<Rightarrow>
             if (if b = 0xF0 then 0x90 else 0x80) \<le> c \<and> c \<le> (if b = 0xF4 then 0x8F else 0xBF)
             then (case r of
                     d # r' \<Rightarrow>
                       if cont d then
                         (case r' of
                            e # r'' \<Rightarrow>
                              if cont e then
                                cp_units ((b - 0xF0) * 262144 + (c - 0x80) * 4096
                                            + (d - 0x80) * 64 + (e - 0x80))
                                  @ utf8_decode r''
                              else 0xFFFD # utf8_decode r'
                          | [] \<Rightarrow> [0xFFFD])
                       else 0xFFFD # utf8_decode r
                   | [] \<Rightarrow> [0xFFFD])
             else 0xFFFD # utf8_decode bs
         | [] \<Rightarrow> [0xFFFD])
      else 0xFFFD # utf8_decode bs)"

definition Buffer_toString_utf8 :: "byte list \<Rightarrow> jsstring" where
  "Buffer_toString_utf8 bs = utf8_decode (map unat bs)"

text \<open>
  \<open>buf.toString('base64')\<close>: the standard alphabet, three bytes to four characters,
  padded with \<open>=\<close> to a multiple of four.
\<close>

definition b64_char :: "nat \<Rightarrow> u16" where
  "b64_char n =
     (if n < 26 then fromCharCode (65 + n)
      else if n < 52 then fromCharCode (71 + n)
      else if n < 62 then fromCharCode (n - 4)
      else if n = 62 then 43 else 47)"

fun base64_groups :: "nat list \<Rightarrow> jsstring" where
  "base64_groups [] = []"
| "base64_groups [a] = [b64_char (a div 4), b64_char ((a mod 4) * 16), 61, 61]"
| "base64_groups [a, b] =
     [b64_char (a div 4), b64_char ((a mod 4) * 16 + b div 16), b64_char ((b mod 16) * 4), 61]"
| "base64_groups (a # b # c # bs) =
     [b64_char (a div 4), b64_char ((a mod 4) * 16 + b div 16),
      b64_char ((b mod 16) * 4 + c div 64), b64_char (c mod 64)] @ base64_groups bs"

definition Buffer_toString_base64 :: "byte list \<Rightarrow> jsstring" where
  "Buffer_toString_base64 bs = base64_groups (map unat bs)"

text \<open>
  \<open>Buffer.from(b, 'base64')\<close>: the runtime's lenient decoder. It accepts the standard
  and the URL-safe alphabet, skips every other character, stops at the first \<open>=\<close> and
  never throws; a last group of two or three characters gives one or two bytes, a single
  left-over character gives none.
\<close>

definition unbase64 :: "u16 \<Rightarrow> nat option" where
  "unbase64 c =
     (let k = unat c in
      if 65 \<le> k \<and> k \<le> 90 then Some (k - 65)
      else if 97 \<le> k \<and> k \<le> 122 then Some (k - 71)
      else if 48 \<le> k \<and> k \<le> 57 then Some (k + 4)
      else if k = 43 \<or> k = 45 then Some 62
      else if k = 47 \<or> k = 95 then Some 63
      else None)"

fun sextets :: "jsstring \<Rightarrow> nat list" where
  "sextets [] = []"
| "sextets (c # cs) =
     (if c = 61 then []
      else (case unbase64 c of None \<Rightarrow> sextets cs | Some v \<Rightarrow> v # sextets cs))"

fun sextet_bytes :: "nat list \<Rightarrow> nat list" where
  "sextet_bytes (a # b # c # d # r) =
     [a * 4 + b div 16, (b mod 16) * 16 + c div 4, (c mod 4) * 64 + d] @ sextet_bytes r"
| "sextet_bytes [a, b, c] = [a * 4 + b div 16, (b mod 16) * 16 + c div 4]"
| "sextet_bytes [a, b] = [a * 4 + b div 16]"
| "sextet_bytes _ = []"

definition Buffer_from_base64 :: "jsstring \<Rightarrow> byte list" where
  "Buffer_from_base64 s = map toByte (sextet_bytes (sextets s))"

section \<open>The credential codec \<open>b64url\<close>\<close>

definition b64url_encode :: "jsstring \<Rightarrow> jsstring" where
  "b64url_encode s =
     stripPadding (replaceAll 47 95 (replaceAll 43 45 (Buffer_toString_base64 (Buffer_from_utf8 s))))"

text \<open>The loop \<open>while (b.length % 4) b += '='\<close>.\<close>

function pad :: "jsstring \<Rightarrow> jsstring" where
  "pad b = (if length b mod 4 \<noteq> 0 then pad (b @ [61]) else b)"
  by pat_completeness auto
termination
  by (relation "measure (\<lambda>b. 3 - (length b + 3) mod 4)") (auto, presburger)

declare pad.simps [simp del]

definition b64url_decode :: "jsstring \<Rightarrow> jsstring" where
  "b64url_decode b =
     Buffer_toString_utf8 (Buffer_from_base64 (pad (replaceAll 95 47 (replaceAll 45 43 b))))"


section \<open>The runtime environment and the upstream payload\<close>

text \<open>
  Exceptions are values. \<open>Error m\<close> is \<open>new Error(m)\<close>; \<open>TypeError p\<close> is the engine's
  \<open>TypeError\<close> for reading property (or calling method) \<open>p\<close> of \<open>null\<close> or
  \<open>undefined\<close>. The wording of its message belongs to the engine.
\<close>

datatype exn = Error jsstring | TypeError jsstring

typedecl jsnumber

text \<open>
  The JSON answer of the GraphQL endpoint, with every level the source reads through
  \<open>?.\<close> or a default nullable. An entry \<open>g\<close> of \<open>titleGenres.genres\<close> is
  \<open>null\<close> (\<open>NullEntry\<close>), an object without \<open>genre\<close> (\<open>NoGenre\<close>), or carries
  \<open>genre.text\<close> (\<open>Genre\<close>, \<open>None\<close> when the text is missing).
\<close>

datatype genre_entry = NullEntry | NoGenre | Genre "jsstring option"

record title =
  title_id :: "jsstring option"
  titleType_id :: "jsstring option"
  titleText_text :: "jsstring option"
  originalTitleText_text :: "jsstring option"
  primaryImage_url :: "jsstring option"
  releaseYear_year :: "int option"
  titleGenres_genres :: "genre_entry list option"
  ratingsSummary_aggregateRating :: "jsnumber option"

record edge =
  node_title :: "title option"

text \<open>\<open>data\<close> is missing, \<open>data.titleRecommendations\<close> is missing, or \<open>edges\<close> is there
  (\<open>None\<close> when null).\<close>

datatype recommendations = NoData | NoRecommendations | Edges "edge list option"

record gql_error =
  message :: "jsstring option"

record payload =
  data :: recommendations
  errors :: "gql_error list option"

text \<open>\<open>axios.post\<close> rejects with \<open>e.response?.status\<close> and \<open>e.message\<close>, or resolves
  with \<open>response.data\<close>.\<close>

datatype axios_result =
  Rejected "nat option" "jsstring option"
| Resolved "payload option"

record env =
  post :: "jsstring \<Rightarrow> axios_result"
  toLowerCase :: "jsstring \<Rightarrow> jsstring"
  typeErrorMessage :: "jsstring \<Rightarrow> jsstring"

fun errMessage :: "env \<Rightarrow> exn \<Rightarrow> jsstring" where
  "errMessage E (Error m) = m"
| "errMessage E (TypeError p) = typeErrorMessage E p"

text \<open>A number in a string concatenation: its decimal digits.\<close>

fun decimal :: "nat \<Rightarrow> jsstring" where
  "decimal n =
     (if n < 10 then [fromCharCode (48 + n)]
      else decimal (n div 10) @ [fromCharCode (48 + n mod 10)])"

declare decimal.simps [simp del]

text \<open>
  \<open>s.match(/p/i)\<close> for an ASCII pattern \<open>p\<close>, as a truth value. Without the \<open>u\<close> flag
  the regular expression folds case through upper case and never folds a code unit
  above 127 to an ASCII one, so only ASCII letters match the letters of the pattern.
\<close>

definition canonicalize :: "u16 \<Rightarrow> u16" where
  "canonicalize c = (if 97 \<le> c \<and> c \<le> 122 then c - 32 else c)"

fun search :: "jsstring \<Rightarrow> jsstring \<Rightarrow> bool" where
  "search p [] = (p = [])"
| "search p (x # xs) = (prefix p (x # xs) \<or> search p xs)"

definition matchesIgnoreCase :: "jsstring \<Rightarrow> jsstring \<Rightarrow> bool" where
  "matchesIgnoreCase s p = search (map canonicalize p) (map canonicalize s)"

section \<open>Upstream fetch\<close>

text \<open>\<open>response?.data?.data?.titleRecommendations?.edges\<close> and
  \<open>response?.data?.errors\<close>, of \<open>response.data\<close>.\<close>

definition optEdges :: "payload option \<Rightarrow> edge list option" where
  "optEdges d =
     (case d of None \<Rightarrow> None
      | Some p \<Rightarrow> (case data p of Edges es \<Rightarrow> es | _ \<Rightarrow> None))"

definition optErrors :: "payload option \<Rightarrow> gql_error list option" where
  "optErrors d = (case d of None \<Rightarrow> None | Some p \<Rightarrow> errors p)"

text \<open>\<open>errors.map(e => e.message).join(', ')\<close>; \<open>join\<close> writes a missing message as
  the empty string.\<close>

definition joinedMessages :: "gql_error list \<Rightarrow> jsstring" where
  "joinedMessages es =
     join (js '', '') (map (\<lambda>e. case message e of None \<Rightarrow> [] | Some m \<Rightarrow> m) es)"

text \<open>The two \<open>throw\<close> statements on an upstream error list, and the one on a failed
  request; both revisions have them word for word.\<close>

definition errorFor :: "jsstring \<Rightarrow> exn" where
  "errorFor msg =
     (if matchesIgnoreCase msg (js ''auth'') \<or> matchesIgnoreCase msg (js ''login'')
      then Error (js ''Login required or cookie expired.'')
      else Error (js ''IMDb GraphQL error: '' @ msg))"

definition requestFailed :: "nat option \<Rightarrow> jsstring option \<Rightarrow> exn" where
  "requestFailed st msg =
     Error (js ''Request to IMDb GraphQL failed: ''
            @ (case st of None \<Rightarrow> [] | Some n \<Rightarrow> if n = 0 then [] else decimal n)
            @ js '' '' @ (case msg of None \<Rightarrow> [] | Some m \<Rightarrow> m))"

text \<open>\<open>fetchImdbData\<close> of the revision with the genre filter.\<close>

definition fetchImdbData :: "env \<Rightarrow> jsstring \<Rightarrow> exn + payload option" where
  "fetchImdbData E cookie =
     (case post E cookie of
        Rejected st msg \<Rightarrow> Inl (requestFailed st msg)
      | Resolved d \<Rightarrow>
          (case optErrors d of
             Some es \<Rightarrow>
               if (case optEdges d of None \<Rightarrow> True | Some xs \<Rightarrow> xs = [])
               then Inl (errorFor (joinedMessages es))
               else Inr d
           | None \<Rightarrow> Inr d))"

section \<open>Catalog items\<close>

text \<open>The Stremio meta object. \<open>genres\<close> is \<open>None\<close> where the object has no such field
  (the revision without the genre filter).\<close>

record meta =
  meta_id :: jsstring
  meta_type :: jsstring
  meta_name :: jsstring
  poster :: jsstring
  year :: "int option"
  genres :: "jsstring list option"
  posterShape :: jsstring
  imdbRating :: "jsnumber option"

text \<open>\<open>x || d\<close> for a string that may be missing: the empty string is falsy too.\<close>

definition orElse :: "jsstring option \<Rightarrow> jsstring \<Rightarrow> jsstring" where
  "orElse x d = (case x of None \<Rightarrow> d | Some s \<Rightarrow> if s = [] then d else s)"

definition typeOf :: "title \<Rightarrow> jsstring" where
  "typeOf t =
     (if titleType_id t = Some (js ''tvSeries'') \<or> titleType_id t = Some (js ''tvMiniSeries'')
      then js ''series'' else js ''movie'')"

text \<open>\<open>(t.titleGenres?.genres || []).map(g => g.genre.text)\<close>: the first entry that is
  \<open>null\<close> or has no \<open>genre\<close> throws.\<close>

fun genreTexts :: "genre_entry list \<Rightarrow> exn + jsstring option list" where
  "genreTexts [] = Inr []"
| "genreTexts (NullEntry # gs) = Inl (TypeError (js ''genre''))"
| "genreTexts (NoGenre # gs) = Inl (TypeError (js ''text''))"
| "genreTexts (Genre t # gs) =
     (case genreTexts gs of Inl e \<Rightarrow> Inl e | Inr ts \<Rightarrow> Inr (t # ts))"

text \<open>\<open>.filter(Boolean)\<close> on strings that may be missing.\<close>

fun truthy :: "jsstring option list \<Rightarrow> jsstring list" where
  "truthy [] = []"
| "truthy (None # ts) = truthy ts"
| "truthy (Some s # ts) = (if s = [] then truthy ts else s # truthy ts)"

text \<open>\<open>buildMeta\<close>; \<open>Inr None\<close> is the \<open>null\<close> it returns for an edge to skip.\<close>

definition buildMeta :: "edge \<Rightarrow> exn + meta option" where
  "buildMeta e =
     (case node_title e of
        None \<Rightarrow> Inr None
      | Some t \<Rightarrow>
          (case title_id t of
             None \<Rightarrow> Inr None
           | Some i \<Rightarrow>
               if i = [] then Inr None
               else (case genreTexts (case titleGenres_genres t of None \<Rightarrow> [] | Some gs \<Rightarrow> gs) of
                       Inl x \<Rightarrow> Inl x
                     | Inr ts \<Rightarrow>
                         Inr (Some \<lparr> meta_id = i, meta_type = typeOf t,
                           meta_name = orElse (titleText_text t)
                                         (orElse (originalTitleText_text t) (js ''IMDb title'')),
                           poster = orElse (primaryImage_url t) [],
                           year = releaseYear_year t,
                           genres = Some (truthy ts),
                           posterShape = js ''poster'',
                           imdbRating = ratingsSummary_aggregateRating t \<rparr>))))"

text \<open>The mapper inside \<open>scrape\<close> (the revision without the genre filter).\<close>

definition scrapeItem :: "edge \<Rightarrow> meta option" where
  "scrapeItem e =
     (case node_title e of
        None \<Rightarrow> None
      | Some t \<Rightarrow>
          (case title_id t of
             None \<Rightarrow> None
           | Some i \<Rightarrow>
               if i = [] then None
               else Some \<lparr> meta_id = i, meta_type = typeOf t,
                      meta_name = orElse (titleText_text t)
                                    (orElse (originalTitleText_text t) (js ''IMDb title'')),
                      poster = orElse (primaryImage_url t) [],
                      year = releaseYear_year t,
                      genres = None,
                      posterShape = js ''poster'',
                      imdbRating = ratingsSummary_aggregateRating t \<rparr>))"

text \<open>\<open>xs.map(f).filter(Boolean)\<close> for an \<open>f\<close> that may throw: the first exception, in
  the order of the list, leaves the map.\<close>

fun mapMetas :: "(edge \<Rightarrow> exn + meta option) \<Rightarrow> edge list \<Rightarrow> exn + meta list" where
  "mapMetas f [] = Inr []"
| "mapMetas f (e # es) =
     (case f e of
        Inl x \<Rightarrow> Inl x
      | Inr m \<Rightarrow>
          (case mapMetas f es of
             Inl x \<Rightarrow> Inl x
           | Inr ms \<Rightarrow> Inr (case m of None \<Rightarrow> ms | Some v \<Rightarrow> v # ms)))"

text \<open>\<open>scrape\<close>.\<close>

definition scrape :: "env \<Rightarrow> jsstring \<Rightarrow> exn + meta list" where
  "scrape E cookie =
     (case post E cookie of
        Rejected st msg \<Rightarrow> Inl (requestFailed st msg)
      | Resolved d \<Rightarrow>
          (let edges = (case optEdges d of None \<Rightarrow> [] | Some xs \<Rightarrow> xs) in
           if edges = [] then
             (case optErrors d of
                Some es \<Rightarrow> Inl (errorFor (joinedMessages es))
              | None \<Rightarrow> Inl (Error (js ''No Top Picks found for this account.'')))
           else Inr (List.map_filter scrapeItem edges)))"

section \<open>Genre extraction\<close>

text \<open>\<open>genresSet.add(x)\<close> on a \<open>Set\<close> kept in insertion order.\<close>

definition setAdd :: "jsstring list \<Rightarrow> jsstring \<Rightarrow> jsstring list" where
  "setAdd s x = (if x \<in> set s then s else s @ [x])"

text \<open>\<open>g?.genre?.text\<close> when it is truthy.\<close>

fun entryText :: "genre_entry \<Rightarrow> jsstring option" where
  "entryText (Genre (Some t)) = (if t = [] then None else Some t)"
| "entryText _ = None"

definition edgeGenres :: "edge \<Rightarrow> genre_entry list" where
  "edgeGenres e =
     (case node_title e of
        None \<Rightarrow> []
      | Some t \<Rightarrow> (case titleGenres_genres t of None \<Rightarrow> [] | Some gs \<Rightarrow> gs))"

definition addGenres :: "jsstring list \<Rightarrow> edge \<Rightarrow> jsstring list" where
  "addGenres s e =
     foldl (\<lambda>s g. case entryText g of None \<Rightarrow> s | Some t \<Rightarrow> setAdd s t) s (edgeGenres e)"

text \<open>\<open>extractGenresFromData\<close>; \<open>Array.prototype.sort\<close> without a comparator orders
  strings by their code units.\<close>

definition extractGenresFromData :: "payload option \<Rightarrow> jsstring list" where
  "extractGenresFromData d =
     sort (foldl addGenres [] (case optEdges d of None \<Rightarrow> [] | Some xs \<Rightarrow> xs))"

section \<open>Extras\<close>

text \<open>\<open>extras[k] = v\<close> on a plain object: the key \<open>__proto__\<close> reaches the prototype
  setter, which ignores a string, so no property is stored.\<close>

definition setProp :: "(jsstring \<rightharpoonup> jsstring) \<Rightarrow> jsstring \<Rightarrow> jsstring \<Rightarrow> (jsstring \<rightharpoonup> jsstring)" where
  "setProp m k v = (if k = js ''__proto__'' then m else m(k \<mapsto> v))"

text \<open>One \<open>pair\<close> of the \<open>forEach\<close>: \<open>[k, v] = pair.split('=')\<close>, stored when both are
  non-empty.\<close>

definition addPair :: "(jsstring \<rightharpoonup> jsstring) \<Rightarrow> jsstring \<Rightarrow> (jsstring \<rightharpoonup> jsstring)" where
  "addPair m pair =
     (case split 61 pair of
        k # v # _ \<Rightarrow> if k \<noteq> [] \<and> v \<noteq> [] then setProp m k v else m
      | _ \<Rightarrow> m)"

definition parseExtrasFromPath :: "jsstring \<Rightarrow> (jsstring \<rightharpoonup> jsstring)" where
  "parseExtrasFromPath path =
     (let parts = split 47 path;
          extrasStr = stripJson (case at parts 4 of None \<Rightarrow> [] | Some s \<Rightarrow> s)
      in if extrasStr \<noteq> [] \<and> includesChar extrasStr 61
         then foldl addPair Map.empty (split 44 extrasStr)
         else Map.empty)"

section \<open>Responses\<close>

record extra =
  extra_name :: jsstring
  isRequired :: bool
  options :: "jsstring list"

record catalog =
  catalog_id :: jsstring
  catalog_type :: jsstring
  catalog_name :: jsstring
  catalog_extra :: "extra list option"

record manifest =
  manifest_id :: jsstring
  version :: jsstring
  manifest_name :: jsstring
  description :: jsstring
  types :: "jsstring list"
  catalogs :: "catalog list"
  resources :: "jsstring list"
  configurable :: bool

text \<open>The placeholder of the meta route; \<open>type\<close> is \<open>undefined\<close> when the path has no
  such segment.\<close>

record stub =
  stub_id :: jsstring
  stub_type :: "jsstring option"
  stub_name :: jsstring
  stub_poster :: jsstring

text \<open>The values handed to \<open>send\<close>; \<open>Page\<close> is the constant \<open>PAGE\<close>.\<close>

datatype jsvalue =
  Page
| Str jsstring
| ManifestObj manifest
| ErrorObj jsstring
| MetasObj "meta list"
| MetaObj stub

datatype body = NoBody | Verbatim jsvalue | Stringified jsvalue

record response =
  statusCode :: nat
  headers :: "(jsstring \<times> jsstring) list"
  body :: body

definition send :: "jsvalue \<Rightarrow> jsstring \<Rightarrow> nat \<Rightarrow> response" where
  "send b type code =
     \<lparr> statusCode = code,
       headers = [(js ''Content-Type'', type), (js ''Access-Control-Allow-Origin'', js ''*'')],
       body = (if startsWith type (js ''application/json'') then Stringified b else Verbatim b) \<rparr>"

definition preflight :: response where
  "preflight =
     \<lparr> statusCode = 204,
       headers = [(js ''Access-Control-Allow-Origin'', js ''*''),
                  (js ''Access-Control-Allow-Methods'', js ''GET,OPTIONS''),
                  (js ''Access-Control-Allow-Headers'', js ''Content-Type'')],
       body = NoBody \<rparr>"

definition genreExtra :: extra where
  "genreExtra = \<lparr> extra_name = js ''genre'', isRequired = False, options = [] \<rparr>"

definition BASE_MANIFEST :: manifest where
  "BASE_MANIFEST =
     \<lparr> manifest_id = js ''community.imdb-top-picks'',
       version = js ''2.4.0'',
       manifest_name = js ''IMDb Top Picks'',
       description = js ''Personalized IMDb \"Top Picks\" for your account.'',
       types = [js ''movie'', js ''series''],
       catalogs =
         [\<lparr> catalog_id = js ''imdb-top-picks'', catalog_type = js ''movie'',
            catalog_name = js ''IMDB Top Picks '' @ [0x2013] @ js '' Movies'',
            catalog_extra = Some [genreExtra] \<rparr>,
          \<lparr> catalog_id = js ''imdb-top-picks'', catalog_type = js ''series'',
            catalog_name = js ''IMDB Top Picks '' @ [0x2013] @ js '' Series'',
            catalog_extra = Some [genreExtra] \<rparr>],
       resources = [js ''catalog'', js ''meta''],
       configurable = False \<rparr>"

definition MANIFEST :: manifest where
  "MANIFEST =
     \<lparr> manifest_id = js ''community.imdb-top-picks'',
       version = js ''2.0.0'',
       manifest_name = js ''IMDb Top Picks'',
       description = js ''Personalized IMDb \"Top Picks\" for your account.'',
       types = [js ''movie'', js ''series''],
       catalogs =
         [\<lparr> catalog_id = js ''imdb-top-picks'', catalog_type = js ''movie'',
            catalog_name = js ''IMDB Top Picks '' @ [0x2013] @ js '' Movies'',
            catalog_extra = None \<rparr>,
          \<lparr> catalog_id = js ''imdb-top-picks'', catalog_type = js ''series'',
            catalog_name = js ''IMDB Top Picks '' @ [0x2013] @ js '' Series'',
            catalog_extra = None \<rparr>],
       resources = [js ''catalog'', js ''meta''],
       configurable = False \<rparr>"

definition missingCookie :: jsstring where
  "missingCookie =
     js ''Missing IMDb cookie '' @ [0x2013] @ js '' generate URL via root page.''"

definition json :: jsstring where
  "json = js ''application/json''"

section \<open>The request handler\<close>

text \<open>\<open>req.method\<close> and the \<open>pathname\<close> of \<open>new URL(req.url, ...)\<close>.\<close>

record request =
  req_method :: jsstring
  pathname :: jsstring

text \<open>
  \<open>segs\<close>, \<open>hash\<close> and \<open>tail\<close> of the handler, from the path name of the request URL.
\<close>

definition segsOf :: "jsstring \<Rightarrow> jsstring list" where
  "segsOf p = filter (\<lambda>s. s \<noteq> []) (split 47 p)"

definition hashOf :: "jsstring \<Rightarrow> jsstring" where
  "hashOf p =
     (case segsOf p of
        [] \<Rightarrow> []
      | s # _ \<Rightarrow> if \<not> includesChar s 46 then s else [])"

definition tailOf :: "jsstring \<Rightarrow> jsstring" where
  "tailOf p = (if hashOf p \<noteq> [] then js ''/'' @ join (js ''/'') (drop 1 (segsOf p)) else p)"

text \<open>\<open>hash ? b64url.decode(hash) : ''\<close>.\<close>

definition cookieOf :: "jsstring \<Rightarrow> jsstring" where
  "cookieOf hash = (if hash \<noteq> [] then b64url_decode hash else [])"

text \<open>\<open>/^tt\d+$/.test(s)\<close>.\<close>

definition isDigit :: "u16 \<Rightarrow> bool" where
  "isDigit c = (48 \<le> c \<and> c \<le> 57)"

fun isImdbId :: "jsstring \<Rightarrow> bool" where
  "isImdbId (a # b # d # ds) = (a = 116 \<and> b = 116 \<and> list_all isDigit (d # ds))"
| "isImdbId _ = False"

text \<open>The meta stub route, the same in both revisions.\<close>

definition metaRoute :: "jsstring \<Rightarrow> response" where
  "metaRoute tail =
     (let parts = split 47 tail;
          type = at parts 2;
          imdbId = stripJson (case at parts 3 of None \<Rightarrow> [] | Some f \<Rightarrow> f)
      in if \<not> isImdbId imdbId then send (ErrorObj (js ''Bad IMDb id'')) json 400
         else send (MetaObj \<lparr> stub_id = imdbId, stub_type = type,
                     stub_name = js ''IMDb title '' @ imdbId,
                     stub_poster = js ''https://img.omdbapi.com/?i='' @ imdbId
                                     @ js ''&apikey=YOUR_OMDB_API_KEY'' \<rparr>) json 200)"

text \<open>
  A handler run ends in a response or in an exception that nothing catches (\<open>Inl\<close>: the
  promise of the handler rejects and no response is written). The second component
  lists the \<open>Cookie\<close> headers of the outbound calls of the run, in order.
\<close>

type_synonym outcome = "(exn + response) \<times> jsstring list"

subsection \<open>The revision with the genre filter\<close>

text \<open>\<open>cat.extra[0].options = genres\<close>; every catalog of \<open>BASE_MANIFEST\<close> has one
  extra, so the other case does not arise.\<close>

definition withGenres :: "jsstring list \<Rightarrow> catalog \<Rightarrow> catalog" where
  "withGenres gs c =
     c\<lparr> catalog_extra :=
          (case catalog_extra c of
             Some (x # xs) \<Rightarrow> Some (x\<lparr> options := gs \<rparr> # xs)
           | other \<Rightarrow> other) \<rparr>"

definition manifestRoute :: "env \<Rightarrow> jsstring \<Rightarrow> outcome" where
  "manifestRoute E hash =
     (let cookie = cookieOf hash;
          genres = (if cookie \<noteq> [] then
                      (case fetchImdbData E cookie of
                         Inl x \<Rightarrow> []
                       | Inr d \<Rightarrow> extractGenresFromData d)
                    else []);
          m = BASE_MANIFEST\<lparr> catalogs := map (withGenres genres) (catalogs BASE_MANIFEST) \<rparr>
      in (Inr (send (ManifestObj
                 (m\<lparr> manifest_id := (if cookie \<noteq> [] then manifest_id m @ js ''.'' @ hash
                                      else manifest_id m) \<rparr>)) json 200),
          if cookie \<noteq> [] then [cookie] else []))"

text \<open>\<open>imdbData.data.titleRecommendations.edges || []\<close>, read without \<open>?.\<close>.\<close>

definition edgesOrThrow :: "payload option \<Rightarrow> exn + edge list" where
  "edgesOrThrow d =
     (case d of
        None \<Rightarrow> Inl (TypeError (js ''data''))
      | Some p \<Rightarrow>
          (case data p of
             NoData \<Rightarrow> Inl (TypeError (js ''titleRecommendations''))
           | NoRecommendations \<Rightarrow> Inl (TypeError (js ''edges''))
           | Edges es \<Rightarrow> Inr (case es of None \<Rightarrow> [] | Some xs \<Rightarrow> xs)))"

definition genreMatches :: "env \<Rightarrow> jsstring \<Rightarrow> meta \<Rightarrow> bool" where
  "genreMatches E reqGenre m =
     (case genres m of
        None \<Rightarrow> False
      | Some gs \<Rightarrow> list_ex (\<lambda>g. toLowerCase E g = reqGenre) gs)"

text \<open>The body of the \<open>try\<close> block of the catalog route.\<close>

definition catalogMetas ::
  "env \<Rightarrow> jsstring \<Rightarrow> jsstring option \<Rightarrow> (jsstring \<rightharpoonup> jsstring) \<Rightarrow> exn + meta list" where
  "catalogMetas E cookie type extras =
     (case fetchImdbData E cookie of
        Inl x \<Rightarrow> Inl x
      | Inr d \<Rightarrow>
          (case edgesOrThrow d of
             Inl x \<Rightarrow> Inl x
           | Inr es \<Rightarrow>
               (case mapMetas buildMeta es of
                  Inl x \<Rightarrow> Inl x
                | Inr ms \<Rightarrow>
                    (let metas = filter (\<lambda>m. Some (meta_type m) = type) ms
                     in case extras (js ''genre'') of
                          None \<Rightarrow> Inr metas
                        | Some g \<Rightarrow>
                            Inr (filter (genreMatches E (toLowerCase E g)) metas)))))"

definition catalogRoute :: "env \<Rightarrow> jsstring \<Rightarrow> jsstring \<Rightarrow> outcome" where
  "catalogRoute E hash tail =
     (let parts = split 47 tail; type = at parts 2 in
      case at parts 3 of
        None \<Rightarrow> (Inl (TypeError (js ''startsWith'')), [])
      | Some catId \<Rightarrow>
          if \<not> startsWith catId (js ''imdb-top-picks'')
          then (Inr (send (ErrorObj (js ''Unknown catalog'')) json 404), [])
          else
            (let extras = parseExtrasFromPath tail; cookie = cookieOf hash in
             if cookie = [] then (Inr (send (ErrorObj missingCookie) json 400), [])
             else (case catalogMetas E cookie type extras of
                     Inr metas \<Rightarrow> (Inr (send (MetasObj metas) json 200), [cookie])
                   | Inl x \<Rightarrow> (Inr (send (ErrorObj (errMessage E x)) json 503), [cookie]))))"

definition route :: "env \<Rightarrow> jsstring \<Rightarrow> jsstring \<Rightarrow> outcome" where
  "route E hash tail =
     (if tail = js ''/'' \<or> tail = js ''/index.html'' then (Inr (send Page (js ''text/html'') 200), [])
      else if tail = js ''/manifest.json'' then manifestRoute E hash
      else if startsWith tail (js ''/catalog/'') then catalogRoute E hash tail
      else if startsWith tail (js ''/meta/'') then (Inr (metaRoute tail), [])
      else (Inr (send (Str (js ''Not found'')) (js ''text/plain'') 404), []))"

definition handler :: "env \<Rightarrow> request \<Rightarrow> outcome" where
  "handler E req =
     (if req_method req = js ''OPTIONS'' then (Inr preflight, [])
      else route E (hashOf (pathname req)) (tailOf (pathname req)))"

subsection \<open>The revision with the fixed catalog (\<open>api/index.js\<close>)\<close>

definition manifestRoute0 :: "jsstring \<Rightarrow> outcome" where
  "manifestRoute0 hash =
     (let cookie = cookieOf hash in
      (Inr (send (ManifestObj
              (if cookie \<noteq> [] then MANIFEST\<lparr> manifest_id := manifest_id MANIFEST @ js ''.'' @ hash \<rparr>
               else MANIFEST)) json 200), []))"

definition catalogRoute0 :: "env \<Rightarrow> jsstring \<Rightarrow> jsstring \<Rightarrow> outcome" where
  "catalogRoute0 E hash tail =
     (let parts = split 47 tail; type = at parts 2; file = at parts 3 in
      if file \<noteq> Some (js ''imdb-top-picks.json'')
      then (Inr (send (ErrorObj (js ''Unknown catalog'')) json 404), [])
      else
        (let cookie = cookieOf hash in
         if cookie = [] then (Inr (send (ErrorObj missingCookie) json 400), [])
         else (case scrape E cookie of
                 Inr ms \<Rightarrow>
                   (Inr (send (MetasObj (filter (\<lambda>m. Some (meta_type m) = type) ms)) json 200),
                    [cookie])
               | Inl x \<Rightarrow> (Inr (send (ErrorObj (errMessage E x)) json 503), [cookie]))))"

definition route0 :: "env \<Rightarrow> jsstring \<Rightarrow> jsstring \<Rightarrow> outcome" where
  "route0 E hash tail =
     (if tail = js ''/'' \<or> tail = js ''/index.html'' then (Inr (send Page (js ''text/html'') 200), [])
      else if tail = js ''/manifest.json'' then manifestRoute0 hash
      else if startsWith tail (js ''/catalog/'') then catalogRoute0 E hash tail
      else if startsWith tail (js ''/meta/'') then (Inr (metaRoute tail), [])
      else (Inr (send (Str (js ''Not found'')) (js ''text/plain'') 404), []))"

definition handler0 :: "env \<Rightarrow> request \<Rightarrow> outcome" where
  "handler0 E req =
     (if req_method req = js ''OPTIONS'' then (Inr preflight, [])
      else route0 E (hashOf (pathname req)) (tailOf (pathname req)))"

section \<open>A concrete environment\<close>

text \<open>
  For concrete runs: the network answers by \<open>p\<close>, \<open>toLowerCase\<close> is its restriction
  to ASCII strings, and the message of a \<open>TypeError\<close> names the property.
\<close>

definition asciiLower :: "jsstring \<Rightarrow> jsstring" where
  "asciiLower s = map (\<lambda>c. if 65 \<le> c \<and> c \<le> 90 then c + 32 else c) s"

definition engine :: "(jsstring \<Rightarrow> axios_result) \<Rightarrow> env" where
  "engine p =
     \<lparr> post = p, toLowerCase = asciiLower,
       typeErrorMessage = (\<lambda>prop. js ''Cannot read properties of undefined (reading '' @ prop @ js '')'') \<rparr>"

text \<open>An edge with an id, a title type and genre texts, and an environment whose network
  answers every call with the given edges and no error list.\<close>

definition sampleEdge :: "jsstring \<Rightarrow> jsstring \<Rightarrow> jsstring list \<Rightarrow> edge" where
  "sampleEdge i ty gs =
     \<lparr> node_title = Some
         \<lparr> title_id = Some i, titleType_id = Some ty, titleText_text = None,
           originalTitleText_text = None, primaryImage_url = None, releaseYear_year = None,
           titleGenres_genres = Some (map (\<lambda>g. Genre (Some g)) gs),
           ratingsSummary_aggregateRating = None \<rparr> \<rparr>"

definition sampleMeta :: "jsstring \<Rightarrow> jsstring \<Rightarrow> jsstring list \<Rightarrow> meta" where
  "sampleMeta i ty gs =
     \<lparr> meta_id = i, meta_type = ty, meta_name = js ''IMDb title'', poster = [], year = None,
       genres = Some gs, posterShape = js ''poster'', imdbRating = None \<rparr>"

definition answering :: "edge list \<Rightarrow> env" where
  "answering es = engine (\<lambda>c. Resolved (Some \<lparr> data = Edges (Some es), errors = None \<rparr>))"

section \<open>Predicates of the statements\<close>

text \<open>A string of UTF-16 code units without a lone surrogate.\<close>

fun wf16 :: "nat list \<Rightarrow> bool" where
  "wf16 [] = True"
| "wf16 [u] = (\<not> isHigh u \<and> \<not> isLow u)"
| "wf16 (u # l # us) =
     (if isHigh u then isLow l \<and> wf16 us else \<not> isLow u \<and> wf16 (l # us))"

definition wellFormed :: "jsstring \<Rightarrow> bool" where
  "wellFormed s = wf16 (map unat s)"

text \<open>The characters of the URL-safe base64 alphabet.\<close>

definition urlSafe :: "u16 \<Rightarrow> bool" where
  "urlSafe c = ((65 \<le> c \<and> c \<le> 90) \<or> (97 \<le> c \<and> c \<le> 122) \<or> (48 \<le> c \<and> c \<le> 57)
                 \<or> c = 45 \<or> c = 95)"

text \<open>The truthy genre texts of all edges of a payload.\<close>

definition allGenres :: "payload option \<Rightarrow> jsstring set" where
  "allGenres d =
     {t. \<exists>e\<in>set (case optEdges d of None \<Rightarrow> [] | Some xs \<Rightarrow> xs).
           \<exists>g\<in>set (edgeGenres e). entryText g = Some t}"



section \<open>Properties of the credential codec\<close>

subsection \<open>Code units, bytes and the padding loop\<close>

lemma unat_fromCharCode: "n < 65536 \<Longrightarrow> unat (fromCharCode n) = n"
  by (simp add: fromCharCode_def unat_of_nat)

lemma unat_toByte: "n < 256 \<Longrightarrow> unat (toByte n) = n"
  by (simp add: toByte_def unat_of_nat)

lemma toByte_unat: "toByte (unat b) = b"
  by (simp add: toByte_def)

lemma fromCharCode_unat: "fromCharCode (unat u) = u"
  by (simp add: fromCharCode_def)

lemma unat_b64_char:
  "n < 64 \<Longrightarrow> unat (b64_char n) =
     (if n < 26 then 65 + n else if n < 52 then 71 + n else if n < 62 then n - 4
      else if n = 62 then 43 else 47)"
  by (simp add: b64_char_def unat_fromCharCode)

lemma unbase64_b64_char: "n < 64 \<Longrightarrow> unbase64 (b64_char n) = Some n"
  unfolding unbase64_def Let_def by (simp add: unat_b64_char) arith

lemma b64_char_safe:
  assumes "n < 64"
  shows "b64_char n \<noteq> 61" "b64_char n \<noteq> 45" "b64_char n \<noteq> 95"
proof -
  have "unat (b64_char n) \<noteq> 61 \<and> unat (b64_char n) \<noteq> 45 \<and> unat (b64_char n) \<noteq> 95"
    using assms by (simp add: unat_b64_char) arith
  then show "b64_char n \<noteq> 61" "b64_char n \<noteq> 45" "b64_char n \<noteq> 95"
    by auto
qed

lemma pad_step_count:
  "(x::nat) mod 4 \<noteq> 0 \<Longrightarrow> (4 - x mod 4) mod 4 = Suc ((4 - Suc x mod 4) mod 4)"
  by (simp add: mod_Suc) arith

lemma pad_closed: "pad b = b @ replicate ((4 - length b mod 4) mod 4) 61"
proof (induction b rule: pad.induct)
  case (1 b)
  show ?case
  proof (cases "length b mod 4 = 0")
    case True
    have "pad b = b" using True by (subst pad.simps) simp
    then show ?thesis using True by simp
  next
    case False
    have "pad b = pad (b @ [61])"
      using False by (subst pad.simps) simp
    also have "\<dots> = (b @ [61]) @ replicate ((4 - length (b @ [61]) mod 4) mod 4) 61"
      using 1 False by blast
    also have "\<dots> = b @ replicate (Suc ((4 - Suc (length b) mod 4) mod 4)) 61"
      by (simp only: length_append_singleton append_assoc append.simps replicate.simps)
    finally show ?thesis by (simp only: pad_step_count [OF False])
  qed
qed

subsection \<open>The lenient base64 decoder\<close>

lemma sextets_replicate_pad: "sextets (replicate k 61) = []"
  by (cases k) simp_all

lemma sextets_append_pad: "sextets (s @ replicate k 61) = sextets s"
  by (induction s) (simp_all add: sextets_replicate_pad split: option.splits)

lemma stripPadding_decomp: "\<exists>j. s = stripPadding s @ replicate j 61"
proof -
  let ?P = "\<lambda>x::u16. x = 61"
  have "rev s = takeWhile ?P (rev s) @ dropWhile ?P (rev s)" by simp
  then have "s = rev (dropWhile ?P (rev s)) @ rev (takeWhile ?P (rev s))"
    by (metis rev_append rev_rev_ident)
  moreover have "rev (takeWhile ?P (rev s)) = replicate (length (takeWhile ?P (rev s))) 61"
    by (metis (mono_tags, lifting) length_rev replicate_eqI set_rev set_takeWhileD)
  ultimately show ?thesis unfolding stripPadding_def by metis
qed

lemma sextets_stripPadding: "sextets (stripPadding s) = sextets s"
proof -
  obtain j where "s = stripPadding s @ replicate j 61"
    using stripPadding_decomp by blast
  then show ?thesis by (metis sextets_append_pad)
qed

lemma sextets_pad: "sextets (pad s) = sextets s"
  by (simp add: pad_closed sextets_append_pad)

lemma sextets_map:
  assumes "\<And>c. (f c = 61) = (c = 61)" and "\<And>c. unbase64 (f c) = unbase64 c"
  shows "sextets (map f s) = sextets s"
  by (induction s) (simp_all add: assms split: option.splits)

lemma unbase64_url_safe: "unbase64 45 = unbase64 43" "unbase64 95 = unbase64 47"
  by (simp_all add: unbase64_def)

lemma sextets_replaceAll:
  assumes "unbase64 d = unbase64 c" and "c \<noteq> 61" and "d \<noteq> 61"
  shows "sextets (replaceAll c d s) = sextets s"
  unfolding replaceAll_def
proof (rule sextets_map)
  fix x
  show "((if x = c then d else x) = 61) = (x = 61)" using assms by (cases "x = c") simp_all
  show "unbase64 (if x = c then d else x) = unbase64 x" using assms by (cases "x = c") simp_all
qed

lemma div_mod_digits:
  fixes x :: nat
  assumes "x < m"
  shows "(k * m + x) div m = k" and "(k * m + x) mod m = x"
  using assms by simp_all

lemma sextets_b64_char: "n < 64 \<Longrightarrow> sextets (b64_char n # r) = n # sextets r"
  by (simp add: unbase64_b64_char b64_char_safe)

lemma sextets_eq: "sextets (61 # r) = []"
  by simp

lemma sextet_digits:
  fixes a b c :: nat
  assumes "a < 256" "b < 256" "c < 256"
  shows "(a mod 4 * 16 + b div 16) div 16 = a mod 4"
    and "(a mod 4 * 16 + b div 16) mod 16 = b div 16"
    and "(b mod 16 * 4 + c div 64) div 4 = b mod 16"
    and "(b mod 16 * 4 + c div 64) mod 4 = c div 64"
proof -
  have lt: "b div 16 < 16" "c div 64 < 4" using assms by arith+
  show "(a mod 4 * 16 + b div 16) div 16 = a mod 4"
    and "(a mod 4 * 16 + b div 16) mod 16 = b div 16"
    and "(b mod 16 * 4 + c div 64) div 4 = b mod 16"
    and "(b mod 16 * 4 + c div 64) mod 4 = c div 64"
    by (rule div_mod_digits, rule lt)+
qed

lemma sextet_bounds:
  fixes a b c :: nat
  assumes "a < 256" "b < 256" "c < 256"
  shows "a div 4 < 64" and "a mod 4 * 16 < 64" and "a mod 4 * 16 + b div 16 < 64"
    and "b mod 16 * 4 < 64" and "b mod 16 * 4 + c div 64 < 64" and "c mod 64 < 64"
  using assms by arith+

lemma sextet_bytes_group:
  fixes a b c :: nat
  assumes "a < 256" "b < 256" "c < 256"
  shows "sextet_bytes (a div 4 # (a mod 4 * 16 + b div 16) # (b mod 16 * 4 + c div 64) # c mod 64 # r)
           = a # b # c # sextet_bytes r"
  by (simp only: sextet_bytes.simps sextet_digits [OF assms] append.simps)
     (simp only: div_mult_mod_eq)

lemma sextet_bytes_two:
  fixes a b :: nat
  assumes "a < 256" "b < 256"
  shows "sextet_bytes [a div 4, a mod 4 * 16 + b div 16, b mod 16 * 4] = [a, b]"
proof -
  have "(b mod 16 * 4) div 4 = b mod 16" by simp
  then show ?thesis
    by (simp only: sextet_bytes.simps sextet_digits [OF assms assms(2)] div_mult_mod_eq)
qed

lemma sextet_bytes_one:
  fixes a :: nat
  shows "sextet_bytes [a div 4, a mod 4 * 16] = [a]"
proof -
  have "(a mod 4 * 16) div 16 = a mod 4" by simp
  then show ?thesis
    by (simp only: sextet_bytes.simps div_mult_mod_eq)
qed

lemma sextets_base64_groups:
  "\<forall>n\<in>set ns. n < 256 \<Longrightarrow> sextet_bytes (sextets (base64_groups ns)) = ns"
proof (induction ns rule: base64_groups.induct)
  case 1
  show ?case by simp
next
  case (2 a)
  then have a: "a < 256" by simp
  have "sextets (base64_groups [a]) = [a div 4, a mod 4 * 16]"
    by (simp only: base64_groups.simps sextets_b64_char sextet_bounds [OF a a a] sextets_eq)
  then show ?case by (simp only: sextet_bytes_one)
next
  case (3 a b)
  then have a: "a < 256" "b < 256" by simp_all
  have "sextets (base64_groups [a, b]) = [a div 4, a mod 4 * 16 + b div 16, b mod 16 * 4]"
    by (simp only: base64_groups.simps sextets_b64_char sextet_bounds [OF a a(2)] sextets_eq)
  then show ?case by (simp only: sextet_bytes_two [OF a])
next
  case (4 a b c bs)
  then have a: "a < 256" "b < 256" "c < 256" and bs: "\<forall>n\<in>set bs. n < 256" by simp_all
  have "sextets (base64_groups (a # b # c # bs)) =
          a div 4 # (a mod 4 * 16 + b div 16) # (b mod 16 * 4 + c div 64) # c mod 64
            # sextets (base64_groups bs)"
    by (simp only: base64_groups.simps append.simps sextets_b64_char sextet_bounds [OF a])
  then show ?case using "4.IH" [OF bs] by (simp only: sextet_bytes_group [OF a])
qed

subsection \<open>UTF-8 arithmetic\<close>

lemma radix64:
  fixes cp :: nat
  obtains q1 q2 q3 r1 r2 r3 where
    "cp div 64 = q1" "cp div 4096 = q2" "cp div 262144 = q3"
    "cp mod 64 = r1" "cp div 64 mod 64 = r2" "cp div 4096 mod 64 = r3"
    "cp = q1 * 64 + r1" "cp = q2 * 4096 + r2 * 64 + r1"
    "cp = q3 * 262144 + r3 * 4096 + r2 * 64 + r1" "r1 < 64" "r2 < 64" "r3 < 64"
proof -
  define q1 q2 q3 r1 r2 r3 where d: "q1 = cp div 64" "q2 = q1 div 64" "q3 = q2 div 64"
    "r1 = cp mod 64" "r2 = q1 mod 64" "r3 = q2 mod 64"
  have a: "cp div 4096 = q2" "cp div 262144 = q3"
    by (simp_all add: d div_mult2_eq)
  have e: "cp = q1 * 64 + r1" "q1 = q2 * 64 + r2" "q2 = q3 * 64 + r3"
    by (simp_all only: d div_mult_mod_eq)
  have lt: "r1 < 64" "r2 < 64" "r3 < 64" by (simp_all add: d)
  have f: "cp = q2 * 4096 + r2 * 64 + r1" using e(1,2) by linarith
  have g: "cp = q3 * 262144 + r3 * 4096 + r2 * 64 + r1" using f e(3) by linarith
  show thesis
  proof (rule that [of q1 q2 q3 r1 r2 r3])
    show "cp div 64 = q1" "cp mod 64 = r1" by (simp_all only: d)
    show "cp div 64 mod 64 = r2" by (simp only: d)
    show "cp div 4096 mod 64 = r3" by (simp only: a d)
  qed (fact a e f g lt)+
qed

lemma two_byte_arith: fixes cp :: nat assumes "0x80 \<le> cp" "cp < 0x800"
  shows "0xC2 \<le> 0xC0 + cp div 64" "0xC0 + cp div 64 \<le> 0xDF" "cp div 64 * 64 + cp mod 64 = cp"
proof -
  obtain q1 q2 q3 r1 r2 r3 where f: "cp div 64 = q1" "cp mod 64 = r1"
    and g: "cp = q1 * 64 + r1" "r1 < 64"
    by (rule radix64 [of cp])
  show "0xC2 \<le> 0xC0 + cp div 64" "0xC0 + cp div 64 \<le> 0xDF" "cp div 64 * 64 + cp mod 64 = cp"
    unfolding f using assms g by linarith+
qed

lemma three_byte_arith: fixes cp :: nat assumes "0x800 \<le> cp" "cp < 0x10000"
  shows "0xE0 + cp div 4096 \<le> 0xEF" "cp div 4096 = 0 \<Longrightarrow> 0x20 \<le> cp div 64 mod 64"
    "cp div 4096 * 4096 + cp div 64 mod 64 * 64 + cp mod 64 = cp"
    "cp div 4096 = 13 \<Longrightarrow> cp < 0xD800 \<Longrightarrow> cp div 64 mod 64 < 0x20"
proof -
  obtain q1 q2 q3 r1 r2 r3 where f: "cp mod 64 = r1" "cp div 64 mod 64 = r2" "cp div 4096 = q2" 
    and g: "cp = q2 * 4096 + r2 * 64 + r1" "r1 < 64" "r2 < 64"
    by (rule radix64 [of cp])
  show "0xE0 + cp div 4096 \<le> 0xEF" "cp div 4096 = 0 \<Longrightarrow> 0x20 \<le> cp div 64 mod 64"
    "cp div 4096 * 4096 + cp div 64 mod 64 * 64 + cp mod 64 = cp"
    "cp div 4096 = 13 \<Longrightarrow> cp < 0xD800 \<Longrightarrow> cp div 64 mod 64 < 0x20"
    unfolding f using assms g by linarith+
qed

lemma four_byte_arith: fixes cp :: nat assumes "0x10000 \<le> cp" "cp < 0x110000"
  shows "0xF0 + cp div 262144 \<le> 0xF4" "cp div 262144 = 0 \<Longrightarrow> 0x10 \<le> cp div 4096 mod 64"
    "cp div 262144 * 262144 + cp div 4096 mod 64 * 4096 + cp div 64 mod 64 * 64 + cp mod 64 = cp"
    "cp div 262144 = 4 \<Longrightarrow> cp div 4096 mod 64 < 0x10"
proof -
  obtain q1 q2 q3 r1 r2 r3 where f: "cp mod 64 = r1" "cp div 64 mod 64 = r2" "cp div 4096 mod 64 = r3"
     "cp div 262144 = q3"
    and g: "cp = q3 * 262144 + r3 * 4096 + r2 * 64 + r1" "r1 < 64" "r2 < 64" "r3 < 64"
    by (rule radix64 [of cp])
  show "0xF0 + cp div 262144 \<le> 0xF4" "cp div 262144 = 0 \<Longrightarrow> 0x10 \<le> cp div 4096 mod 64"
    "cp div 262144 * 262144 + cp div 4096 mod 64 * 4096 + cp div 64 mod 64 * 64 + cp mod 64 = cp"
    "cp div 262144 = 4 \<Longrightarrow> cp div 4096 mod 64 < 0x10"
    unfolding f using assms g by linarith+
qed

lemma surrogate_pair_arith: fixes u l :: nat assumes "0xD800 \<le> u" "u \<le> 0xDBFF" "0xDC00 \<le> l" "l \<le> 0xDFFF"
  shows "0x10000 \<le> 0x10000 + (u - 0xD800) * 1024 + (l - 0xDC00)"
   "0x10000 + (u - 0xD800) * 1024 + (l - 0xDC00) < 0x110000"
   "0xD800 + (0x10000 + (u - 0xD800) * 1024 + (l - 0xDC00) - 0x10000) div 1024 = u"
   "0xDC00 + (0x10000 + (u - 0xD800) * 1024 + (l - 0xDC00) - 0x10000) mod 1024 = l"
proof -
  obtain x y where u: "u = 0xD800 + x" and l: "l = 0xDC00 + y"
    using assms by (metis le_Suc_ex)
  have b: "x < 1024" "y < 1024" using assms u l by linarith+
  have d: "(x * 1024 + y) div 1024 = x" "(x * 1024 + y) mod 1024 = y" using b by simp_all
  show "0x10000 \<le> 0x10000 + (u - 0xD800) * 1024 + (l - 0xDC00)" by simp
  show "0x10000 + (u - 0xD800) * 1024 + (l - 0xDC00) < 0x110000"
    unfolding u l using b by simp
  show "0xD800 + (0x10000 + (u - 0xD800) * 1024 + (l - 0xDC00) - 0x10000) div 1024 = u"
    unfolding u l using d by simp
  show "0xDC00 + (0x10000 + (u - 0xD800) * 1024 + (l - 0xDC00) - 0x10000) mod 1024 = l"
    unfolding u l using d by simp
qed

subsection \<open>The UTF-8 decoder on encoded code points\<close>

lemma dec1: "b < 0x80 \<Longrightarrow> utf8_decode (b # r) = fromCharCode b # utf8_decode r"
  by simp

lemma dec2:
  assumes "0xC2 \<le> b" "b \<le> 0xDF" "cont c"
  shows "utf8_decode (b # c # r) = cp_units ((b - 0xC0) * 64 + (c - 0x80)) @ utf8_decode r"
proof -
  have "\<not> b < 0x80" using assms by linarith
  then show ?thesis using assms by (simp only: utf8_decode.simps if_True if_False simp_thms list.case)
qed

lemma dec3:
  assumes "0xE0 \<le> b" "b \<le> 0xEF" "(if b = 0xE0 then 0xA0 else 0x80) \<le> c"
    "c \<le> (if b = 0xED then 0x9F else 0xBF)" "cont d"
  shows "utf8_decode (b # c # d # r) =
           cp_units ((b - 0xE0) * 4096 + (c - 0x80) * 64 + (d - 0x80)) @ utf8_decode r"
proof -
  have "\<not> b < 0x80" "\<not> (0xC2 \<le> b \<and> b \<le> 0xDF)" using assms(1) by linarith+
  then show ?thesis using assms
    by (simp only: utf8_decode.simps if_True if_False simp_thms list.case)
qed

lemma dec4:
  assumes "0xF0 \<le> b" "b \<le> 0xF4" "(if b = 0xF0 then 0x90 else 0x80) \<le> c"
    "c \<le> (if b = 0xF4 then 0x8F else 0xBF)" "cont d" "cont e"
  shows "utf8_decode (b # c # d # e # r) =
           cp_units ((b - 0xF0) * 262144 + (c - 0x80) * 4096 + (d - 0x80) * 64 + (e - 0x80))
             @ utf8_decode r"
proof -
  have "\<not> b < 0x80" "\<not> (0xC2 \<le> b \<and> b \<le> 0xDF)" "\<not> (0xE0 \<le> b \<and> b \<le> 0xEF)"
    using assms(1) by linarith+
  then show ?thesis using assms
    by (simp only: utf8_decode.simps if_True if_False simp_thms list.case)
qed

lemma cont_digit: "r < 64 \<Longrightarrow> cont (0x80 + r)"
  unfolding cont_def by linarith

lemma decode_cp2:
  assumes "0x80 \<le> cp" "cp < 0x800"
  shows "utf8_decode ((0xC0 + cp div 64) # (0x80 + cp mod 64) # bs) = cp_units cp @ utf8_decode bs"
proof -
  have c: "cont (0x80 + cp mod 64)" by (rule cont_digit) simp
  have v: "(0xC0 + cp div 64 - 0xC0) * 64 + (0x80 + cp mod 64 - 0x80) = cp"
    by (simp only: add_diff_cancel_left' two_byte_arith(3) [OF assms])
  show ?thesis
    by (simp only: dec2 [OF two_byte_arith(1,2) [OF assms] c] v)
qed

lemma decode_cp3:
  assumes "0x800 \<le> cp" "cp < 0x10000" "\<not> (0xD800 \<le> cp \<and> cp \<le> 0xDFFF)"
  shows "utf8_decode ((0xE0 + cp div 4096) # (0x80 + cp div 64 mod 64) # (0x80 + cp mod 64) # bs)
           = cp_units cp @ utf8_decode bs"
proof -
  have c: "cont (0x80 + cp mod 64)" by (rule cont_digit) simp
  have r: "cp div 64 mod 64 < 64" by simp
  have lo: "(if 0xE0 + cp div 4096 = 0xE0 then 0xA0 else 0x80) \<le> 0x80 + cp div 64 mod 64"
    using three_byte_arith(2) [OF assms(1,2)] by (cases "cp div 4096 = 0") simp_all
  have "cp div 4096 = 13 \<Longrightarrow> cp < 0xD800"
  proof (rule ccontr)
    assume h: "cp div 4096 = 13" "\<not> cp < 0xD800"
    have "cp div 4096 * 4096 + cp mod 4096 = cp" by (simp only: div_mult_mod_eq)
    moreover have "cp mod 4096 < 4096" by simp
    ultimately have "cp < 0xE000" using h(1) by linarith
    then show False using h(2) assms(3) by linarith
  qed
  then have hi: "0x80 + cp div 64 mod 64 \<le> (if 0xE0 + cp div 4096 = 0xED then 0x9F else 0xBF)"
    using three_byte_arith(4) [OF assms(1,2)] r by (cases "cp div 4096 = 13") simp_all
  have v: "(0xE0 + cp div 4096 - 0xE0) * 4096 + (0x80 + cp div 64 mod 64 - 0x80) * 64
             + (0x80 + cp mod 64 - 0x80) = cp"
    by (simp only: add_diff_cancel_left' three_byte_arith(3) [OF assms(1,2)])
  have b: "0xE0 \<le> 0xE0 + cp div 4096" by simp
  show ?thesis
    by (simp only: dec3 [OF b three_byte_arith(1) [OF assms(1,2)] lo hi c] v)
qed

lemma decode_cp4:
  assumes "0x10000 \<le> cp" "cp < 0x110000"
  shows "utf8_decode ((0xF0 + cp div 262144) # (0x80 + cp div 4096 mod 64)
                        # (0x80 + cp div 64 mod 64) # (0x80 + cp mod 64) # bs)
           = cp_units cp @ utf8_decode bs"
proof -
  have c: "cont (0x80 + cp mod 64)" "cont (0x80 + cp div 64 mod 64)"
    by (rule cont_digit, simp)+
  have r: "cp div 4096 mod 64 < 64" by simp
  have lo: "(if 0xF0 + cp div 262144 = 0xF0 then 0x90 else 0x80) \<le> 0x80 + cp div 4096 mod 64"
    using four_byte_arith(2) [OF assms] by (cases "cp div 262144 = 0") simp_all
  have hi: "0x80 + cp div 4096 mod 64 \<le> (if 0xF0 + cp div 262144 = 0xF4 then 0x8F else 0xBF)"
    using four_byte_arith(4) [OF assms] r by (cases "cp div 262144 = 4") simp_all
  have v: "(0xF0 + cp div 262144 - 0xF0) * 262144 + (0x80 + cp div 4096 mod 64 - 0x80) * 4096
             + (0x80 + cp div 64 mod 64 - 0x80) * 64 + (0x80 + cp mod 64 - 0x80) = cp"
    by (simp only: add_diff_cancel_left' four_byte_arith(3) [OF assms])
  have b: "0xF0 \<le> 0xF0 + cp div 262144" by simp
  show ?thesis
    by (simp only: dec4 [OF b four_byte_arith(1) [OF assms] lo hi c(2,1)] v)
qed

lemma decode_cp:
  assumes "cp < 0x110000" "\<not> (0xD800 \<le> cp \<and> cp \<le> 0xDFFF)"
  shows "utf8_decode (utf8_cp cp @ bs) = cp_units cp @ utf8_decode bs"
proof -
  consider "cp < 0x80" | "0x80 \<le> cp" "cp < 0x800" | "0x800 \<le> cp" "cp < 0x10000"
    | "0x10000 \<le> cp" by linarith
  then show ?thesis
  proof cases
    case 1
    then show ?thesis by (simp add: utf8_cp_def cp_units_def)
  next
    case 2
    then have "utf8_cp cp = [0xC0 + cp div 64, 0x80 + cp mod 64]"
      by (simp add: utf8_cp_def)
    then show ?thesis by (simp only: append.simps decode_cp2 [OF 2])
  next
    case 3
    then have "utf8_cp cp = [0xE0 + cp div 4096, 0x80 + cp div 64 mod 64, 0x80 + cp mod 64]"
      by (simp add: utf8_cp_def)
    then show ?thesis by (simp only: append.simps decode_cp3 [OF 3 assms(2)])
  next
    case 4
    then have "utf8_cp cp = [0xF0 + cp div 262144, 0x80 + cp div 4096 mod 64,
                 0x80 + cp div 64 mod 64, 0x80 + cp mod 64]"
      by (simp add: utf8_cp_def)
    then show ?thesis by (simp only: append.simps decode_cp4 [OF 4 assms(1)])
  qed
qed

lemma utf8_cp_bytes:
  assumes "cp < 0x110000"
  shows "\<forall>b\<in>set (utf8_cp cp). b < 256"
proof -
  have m: "\<And>x::nat. 0x80 + x mod 64 < 256"
    by (rule less_trans [of _ "0x80 + 64"]) simp_all
  consider "cp < 0x80" | "0x80 \<le> cp" "cp < 0x800" | "0x800 \<le> cp" "cp < 0x10000"
    | "0x10000 \<le> cp" by linarith
  then show ?thesis
  proof cases
    case 1
    then show ?thesis by (simp add: utf8_cp_def)
  next
    case 2
    have "0xC0 + cp div 64 < 256" using two_byte_arith(2) [OF 2] by linarith
    then show ?thesis using 2 m by (simp add: utf8_cp_def)
  next
    case 3
    have "0xE0 + cp div 4096 < 256" using three_byte_arith(1) [OF 3] by linarith
    then show ?thesis using 3 m by (simp add: utf8_cp_def)
  next
    case 4
    have "0xF0 + cp div 262144 < 256" using four_byte_arith(1) [OF 4 assms] by linarith
    then show ?thesis using 4 m by (simp add: utf8_cp_def)
  qed
qed

lemma pair_cp_facts:
  assumes "isHigh u" "isLow l"
  shows "pair_cp u l < 0x110000" and "0x10000 \<le> pair_cp u l"
    and "cp_units (pair_cp u l) = [fromCharCode u, fromCharCode l]"
proof -
  have h: "0xD800 \<le> u" "u \<le> 0xDBFF" "0xDC00 \<le> l" "l \<le> 0xDFFF"
    using assms by (simp_all only: isHigh_def isLow_def)
  show lt: "pair_cp u l < 0x110000" unfolding pair_cp_def by (rule surrogate_pair_arith(2) [OF h])
  show ge: "0x10000 \<le> pair_cp u l" unfolding pair_cp_def by (rule surrogate_pair_arith(1) [OF h])
  have n: "\<not> pair_cp u l < 0x10000" using ge by linarith
  have "cp_units (pair_cp u l) =
     [fromCharCode (0xD800 + (pair_cp u l - 0x10000) div 1024),
      fromCharCode (0xDC00 + (pair_cp u l - 0x10000) mod 1024)]"
    unfolding cp_units_def using n by (simp only: if_False)
  also have "\<dots> = [fromCharCode u, fromCharCode l]"
    unfolding pair_cp_def by (simp only: surrogate_pair_arith(3,4) [OF h])
  finally show "cp_units (pair_cp u l) = [fromCharCode u, fromCharCode l]" .
qed

lemma not_surrogate:
  assumes "\<not> isHigh u" "\<not> isLow u"
  shows "\<not> (0xD800 \<le> u \<and> u \<le> 0xDFFF)"
  using assms unfolding isHigh_def isLow_def by linarith

lemma utf8_units_bytes:
  "\<forall>u\<in>set us. u < 65536 \<Longrightarrow> \<forall>b\<in>set (utf8_units us). b < 256"
proof (induction us rule: utf8_units.induct)
  case 1
  show ?case by simp
next
  case (2 u)
  then have "u < 0x110000" by simp
  from utf8_cp_bytes [OF this] show ?case by simp
next
  case (3 u l us)
  have b: "u < 65536" "\<forall>x\<in>set (l # us). x < 65536" "\<forall>x\<in>set us. x < 65536"
    using 3(4) by simp_all
  have u: "u < 0x110000" using b(1) by linarith
  show ?case
  proof (cases "isHigh u \<and> isLow l")
    case True
    have "\<forall>b\<in>set (utf8_cp (pair_cp u l)). b < 256"
      by (rule utf8_cp_bytes) (rule pair_cp_facts(1), simp_all add: True)
    moreover have "\<forall>b\<in>set (utf8_units us). b < 256" by (rule 3(1) [OF True b(3)])
    ultimately show ?thesis using True by auto
  next
    case False
    show ?thesis
    proof (cases "isHigh u \<or> isLow u")
      case True
      have "\<forall>b\<in>set (utf8_units (l # us)). b < 256" by (rule 3(2) [OF False True b(2)])
      then show ?thesis using False True by auto
    next
      case F2: False
      have "\<forall>b\<in>set (utf8_units (l # us)). b < 256" by (rule 3(3) [OF False F2 b(2)])
      then show ?thesis using False F2 utf8_cp_bytes [OF u] by auto
    qed
  qed
qed

lemma cp_units_bmp: "u < 65536 \<Longrightarrow> cp_units u = [fromCharCode u]"
  by (simp add: cp_units_def)

lemma utf8_roundtrip_units:
  "wf16 us \<Longrightarrow> \<forall>u\<in>set us. u < 65536 \<Longrightarrow> utf8_decode (utf8_units us) = map fromCharCode us"
proof (induction us rule: utf8_units.induct)
  case 1
  show ?case by simp
next
  case (2 u)
  then have s: "\<not> isHigh u" "\<not> isLow u" and u: "u < 65536" by simp_all
  have "u < 0x110000" using u by linarith
  then have "utf8_decode (utf8_cp u @ []) = cp_units u @ utf8_decode []"
    using not_surrogate [OF s] by (rule decode_cp)
  then show ?case using s u by (simp add: cp_units_bmp)
next
  case (3 u l us)
  have b: "u < 65536" "\<forall>x\<in>set (l # us). x < 65536" "\<forall>x\<in>set us. x < 65536"
    using 3(5) by simp_all
  show ?case
  proof (cases "isHigh u")
    case True
    then have l: "isLow l" and wf: "wf16 us" using 3(4) by simp_all
    have hl: "isHigh u \<and> isLow l" using True l by simp
    have ns: "\<not> (0xD800 \<le> pair_cp u l \<and> pair_cp u l \<le> 0xDFFF)"
      using pair_cp_facts(2) [OF True l] by linarith
    have "utf8_decode (utf8_cp (pair_cp u l) @ utf8_units us)
            = cp_units (pair_cp u l) @ utf8_decode (utf8_units us)"
      using pair_cp_facts(1) [OF True l] ns by (rule decode_cp)
    moreover have "utf8_decode (utf8_units us) = map fromCharCode us"
      by (rule 3(1) [OF hl wf b(3)])
    moreover have "utf8_units (u # l # us) = utf8_cp (pair_cp u l) @ utf8_units us"
      using hl by simp
    ultimately show ?thesis by (simp only: pair_cp_facts(3) [OF True l] list.map append.simps)
  next
    case False
    then have nl: "\<not> isLow u" and wf: "wf16 (l # us)" using 3(4) by simp_all
    have n1: "\<not> (isHigh u \<and> isLow l)" using False by simp
    have n2: "\<not> (isHigh u \<or> isLow u)" using False nl by simp
    have "u < 0x110000" using b(1) by linarith
    then have "utf8_decode (utf8_cp u @ utf8_units (l # us))
        = cp_units u @ utf8_decode (utf8_units (l # us))"
      using not_surrogate [OF False nl] by (rule decode_cp)
    moreover have "utf8_decode (utf8_units (l # us)) = map fromCharCode (l # us)"
      by (rule 3(3) [OF n1 n2 wf b(2)])
    moreover have "utf8_units (u # l # us) = utf8_cp u @ utf8_units (l # us)"
      using n1 n2 by simp
    ultimately show ?thesis by (simp only: cp_units_bmp [OF b(1)] list.map append.simps)
  qed
qed

subsection \<open>Round trip\<close>

lemma map_unat_toByte: "\<forall>b\<in>set ns. b < 256 \<Longrightarrow> map unat (map toByte ns) = ns"
  by (induction ns) (simp_all add: unat_toByte)

lemma unat_byte_bound: "unat (w :: byte) < 256"
  using unsigned_less [of w, where 'a = nat] by simp

lemma unat_u16_bound: "unat (w :: u16) < 65536"
  using unsigned_less [of w, where 'a = nat] by simp

lemma utf8_roundtrip:
  assumes "wellFormed s"
  shows "Buffer_toString_utf8 (Buffer_from_utf8 s) = s"
proof -
  have b: "\<forall>u\<in>set (map unat s). u < 65536"
    by (simp add: unat_u16_bound)
  have "map unat (map toByte (utf8_units (map unat s))) = utf8_units (map unat s)"
    by (rule map_unat_toByte) (rule utf8_units_bytes [OF b])
  then have "Buffer_toString_utf8 (Buffer_from_utf8 s) = utf8_decode (utf8_units (map unat s))"
    by (simp add: Buffer_toString_utf8_def Buffer_from_utf8_def)
  also have "\<dots> = map fromCharCode (map unat s)"
    using assms b unfolding wellFormed_def by (rule utf8_roundtrip_units)
  also have "\<dots> = s" by (simp add: fromCharCode_unat comp_def)
  finally show ?thesis .
qed

lemma sextets_url_safe:
  "sextets (replaceAll 43 45 s) = sextets s" "sextets (replaceAll 47 95 s) = sextets s"
  "sextets (replaceAll 45 43 s) = sextets s" "sextets (replaceAll 95 47 s) = sextets s"
proof -
  have u: "unbase64 45 = unbase64 43" "unbase64 95 = unbase64 47"
    by (simp_all add: unbase64_def)
  have n: "(43::u16) \<noteq> 61" "(45::u16) \<noteq> 61" "(47::u16) \<noteq> 61" "(95::u16) \<noteq> 61"
    by simp_all
  show "sextets (replaceAll 43 45 s) = sextets s"
    by (rule sextets_replaceAll [OF u(1) n(1) n(2)])
  show "sextets (replaceAll 47 95 s) = sextets s"
    by (rule sextets_replaceAll [OF u(2) n(3) n(4)])
  show "sextets (replaceAll 45 43 s) = sextets s"
    by (rule sextets_replaceAll [OF u(1) [symmetric] n(2) n(1)])
  show "sextets (replaceAll 95 47 s) = sextets s"
    by (rule sextets_replaceAll [OF u(2) [symmetric] n(4) n(3)])
qed

lemma base64_roundtrip:
  "Buffer_from_base64 (pad (replaceAll 95 47 (replaceAll 45 43
      (stripPadding (replaceAll 47 95 (replaceAll 43 45 (Buffer_toString_base64 bs))))))) = bs"
proof -
  have n: "\<forall>n\<in>set (map unat bs). n < 256"
    by (simp add: unat_byte_bound)
  have "sextets (pad (replaceAll 95 47 (replaceAll 45 43
      (stripPadding (replaceAll 47 95 (replaceAll 43 45 (Buffer_toString_base64 bs)))))))
      = sextets (Buffer_toString_base64 bs)"
    by (simp only: sextets_pad sextets_url_safe sextets_stripPadding)
  then have "Buffer_from_base64 (pad (replaceAll 95 47 (replaceAll 45 43
      (stripPadding (replaceAll 47 95 (replaceAll 43 45 (Buffer_toString_base64 bs)))))))
      = map toByte (map unat bs)"
    unfolding Buffer_from_base64_def Buffer_toString_base64_def
    by (simp only: sextets_base64_groups [OF n])
  also have "\<dots> = bs" by (simp add: toByte_unat comp_def)
  finally show ?thesis .
qed


lemma pad_count: "(4 - n mod 4) mod 4 \<le> (3::nat)"
  by (cases "n mod 4 = 0") simp_all

lemma pad_length: "(n + (4 - n mod 4) mod 4) mod 4 = (0::nat)"
proof -
  define r where "r = n mod 4"
  have "r < 4" by (simp add: r_def)
  then consider "r = 0" | "r = 1" | "r = 2" | "r = 3" by linarith
  then have "(r + (4 - r) mod 4) mod 4 = 0" by cases simp_all
  moreover have "(n + (4 - r) mod 4) mod 4 = (r + (4 - r) mod 4) mod 4"
    unfolding r_def by (rule mod_add_left_eq [symmetric])
  ultimately show ?thesis unfolding r_def by simp
qed

text \<open>
  C9. For every input string the padding loop of \<open>b64url.decode\<close> stops after at most
  three \<open>=\<close>, at a length that is a multiple of four, and \<open>decode\<close> is the
  runtime's lenient decoding of the padded string, which has no failing case; so the
  manifest route answers for every credential segment in both revisions.
\<close>

theorem b64url_decode_total:
  "\<exists>k. k \<le> 3
     \<and> pad (replaceAll 95 47 (replaceAll 45 43 b))
           = replaceAll 95 47 (replaceAll 45 43 b) @ replicate k 61
     \<and> length (pad (replaceAll 95 47 (replaceAll 45 43 b))) mod 4 = 0
     \<and> b64url_decode b
           = Buffer_toString_utf8 (Buffer_from_base64
               (replaceAll 95 47 (replaceAll 45 43 b) @ replicate k 61))
     \<and> (\<exists>r c. manifestRoute E b = (Inr r, c))
     \<and> (\<exists>r c. manifestRoute0 b = (Inr r, c))"
proof -
  let ?s = "replaceAll 95 47 (replaceAll 45 43 b)"
  let ?k = "(4 - length ?s mod 4) mod 4"
  have p: "pad ?s = ?s @ replicate ?k 61" by (rule pad_closed)
  have l: "length (pad ?s) mod 4 = 0"
    unfolding p by (simp only: length_append length_replicate pad_length)
  have m: "\<exists>r c. manifestRoute E b = (Inr r, c)"
    by (simp add: manifestRoute_def Let_def)
  have m0: "\<exists>r c. manifestRoute0 b = (Inr r, c)"
    by (simp add: manifestRoute0_def Let_def)
  have d: "b64url_decode b = Buffer_toString_utf8 (Buffer_from_base64 (?s @ replicate ?k 61))"
    unfolding b64url_decode_def by (simp only: p)
  show ?thesis
    by (rule exI [of _ ?k]) (intro conjI pad_count p l d m m0)
qed

theorem b64url_decode_total_witness:
  "\<exists>k. k \<le> 3
     \<and> pad (replaceAll 95 47 (replaceAll 45 43 (js ''a-b_c'')))
           = replaceAll 95 47 (replaceAll 45 43 (js ''a-b_c'')) @ replicate k 61
     \<and> length (pad (replaceAll 95 47 (replaceAll 45 43 (js ''a-b_c'')))) mod 4 = 0
     \<and> b64url_decode (js ''a-b_c'')
           = Buffer_toString_utf8 (Buffer_from_base64
               (replaceAll 95 47 (replaceAll 45 43 (js ''a-b_c'')) @ replicate k 61))
     \<and> (\<exists>r c. manifestRoute (engine (\<lambda>c. Resolved None)) (js ''a-b_c'') = (Inr r, c))
     \<and> (\<exists>r c. manifestRoute0 (js ''a-b_c'') = (Inr r, c))"
  by (rule b64url_decode_total)

subsection \<open>The encoded credential as a path segment\<close>

lemma split_no_sep: "c \<notin> set a \<Longrightarrow> split c a = [a]"
  by (induction a) auto

lemma split_append_sep: "c \<notin> set a \<Longrightarrow> split c (a @ c # b) = a # split c b"
  by (induction a) auto

lemma b64_char_cases:
  assumes "n < 64"
  shows "urlSafe (b64_char n) \<or> b64_char n = 43 \<or> b64_char n = 47"
proof -
  have u: "unat (b64_char n) =
     (if n < 26 then 65 + n else if n < 52 then 71 + n else if n < 62 then n - 4
      else if n = 62 then 43 else 47)"
    by (rule unat_b64_char [OF assms])
  have w: "urlSafe c \<longleftrightarrow> ((65 \<le> unat c \<and> unat c \<le> 90) \<or> (97 \<le> unat c \<and> unat c \<le> 122)
       \<or> (48 \<le> unat c \<and> unat c \<le> 57) \<or> unat c = 45 \<or> unat c = 95)" for c :: u16
    unfolding urlSafe_def by (simp add: word_le_nat_alt word_eq_iff_unsigned [where ?'a = nat])
  have e: "b64_char n = 43 \<longleftrightarrow> unat (b64_char n) = 43" "b64_char n = 47 \<longleftrightarrow> unat (b64_char n) = 47"
    by (simp_all add: word_eq_iff_unsigned [where ?'a = nat])
  consider "n < 26" | "26 \<le> n" "n < 52" | "52 \<le> n" "n < 62" | "n = 62" | "n = 63"
    using assms by linarith
  then show ?thesis
  proof cases
    case 1 then show ?thesis unfolding w e u by simp
  next
    case 2 then show ?thesis unfolding w e u by simp
  next
    case 3 then show ?thesis unfolding w e u by simp linarith
  next
    case 4 then show ?thesis unfolding w e u by simp
  next
    case 5 then show ?thesis unfolding w e u by simp
  qed
qed

lemma urlSafe_not: "urlSafe c \<Longrightarrow> c \<noteq> 61 \<and> c \<noteq> 46 \<and> c \<noteq> 47"
  unfolding urlSafe_def by auto

lemma in_alphabet: "n < 64 \<Longrightarrow> \<exists>m<64. b64_char n = b64_char m"
  by blast

lemma base64_groups_shape:
  assumes "\<forall>n\<in>set ns. n < 256"
  shows "\<exists>body k. base64_groups ns = body @ replicate k 61
           \<and> (\<forall>c\<in>set body. \<exists>n<64. c = b64_char n) \<and> (ns \<noteq> [] \<longrightarrow> body \<noteq> [])"
  using assms
proof (induction ns rule: base64_groups.induct)
  case 1
  show ?case by (intro exI [of _ "[]"] exI [of _ 0]) simp
next
  case (2 a)
  then have a: "a < 256" by simp
  have "base64_groups [a] = [b64_char (a div 4), b64_char (a mod 4 * 16)] @ replicate 2 61"
    by (simp add: numeral_2_eq_2)
  moreover have "\<forall>c\<in>set [b64_char (a div 4), b64_char (a mod 4 * 16)]. \<exists>n<64. c = b64_char n"
    using in_alphabet [OF sextet_bounds(1) [OF a a a]] in_alphabet [OF sextet_bounds(2) [OF a a a]]
    by simp
  ultimately show ?case
    by (intro exI [of _ "[b64_char (a div 4), b64_char (a mod 4 * 16)]"] exI [of _ 2]) simp
next
  case (3 a b)
  then have a: "a < 256" "b < 256" by simp_all
  have "base64_groups [a, b] =
      [b64_char (a div 4), b64_char (a mod 4 * 16 + b div 16), b64_char (b mod 16 * 4)]
        @ replicate 1 61"
    by simp
  moreover have "\<forall>c\<in>set [b64_char (a div 4), b64_char (a mod 4 * 16 + b div 16),
       b64_char (b mod 16 * 4)]. \<exists>n<64. c = b64_char n"
    using in_alphabet [OF sextet_bounds(1) [OF a a(2)]] in_alphabet [OF sextet_bounds(3) [OF a a(2)]]
      in_alphabet [OF sextet_bounds(4) [OF a a(2)]]
    by simp
  ultimately show ?case
    by (intro exI [of _ "[b64_char (a div 4), b64_char (a mod 4 * 16 + b div 16),
          b64_char (b mod 16 * 4)]"] exI [of _ 1]) simp
next
  case (4 a b c bs)
  then have a: "a < 256" "b < 256" "c < 256" and bs: "\<forall>n\<in>set bs. n < 256" by simp_all
  from "4.IH" [OF bs] obtain body k where
    s: "base64_groups bs = body @ replicate k 61" "\<forall>c\<in>set body. \<exists>n<64. c = b64_char n"
    by blast
  let ?g = "[b64_char (a div 4), b64_char (a mod 4 * 16 + b div 16),
             b64_char (b mod 16 * 4 + c div 64), b64_char (c mod 64)]"
  have "base64_groups (a # b # c # bs) = (?g @ body) @ replicate k 61"
    using s(1) by simp
  moreover have "\<forall>c\<in>set ?g. \<exists>n<64. c = b64_char n"
    using in_alphabet [OF sextet_bounds(1) [OF a]] in_alphabet [OF sextet_bounds(3) [OF a]]
      in_alphabet [OF sextet_bounds(5) [OF a]] in_alphabet [OF sextet_bounds(6) [OF a]]
    by simp
  then have "\<forall>c\<in>set (?g @ body). \<exists>n<64. c = b64_char n"
    using s(2) by auto
  moreover have "?g @ body \<noteq> []" by simp
  ultimately show ?case
    by (intro exI [of _ "?g @ body"] exI [of _ k]) simp
qed

lemma stripPadding_append_pad: "stripPadding (s @ replicate k 61) = stripPadding s"
proof -
  have "dropWhile (\<lambda>x. x = 61) (replicate k (61::u16) @ ys) = dropWhile (\<lambda>x. x = 61) ys" for ys
    by (induction k) simp_all
  then show ?thesis by (simp add: stripPadding_def)
qed

lemma stripPadding_id: "61 \<notin> set s \<Longrightarrow> stripPadding s = s"
proof -
  assume a: "61 \<notin> set s"
  have "dropWhile (\<lambda>x. x = 61) (rev s) = rev s"
  proof (cases "rev s")
    case Nil
    then show ?thesis by simp
  next
    case (Cons y ys)
    then have "y \<in> set s" by (metis list.set_intros(1) set_rev)
    with a have "y \<noteq> 61" by auto
    with Cons show ?thesis by simp
  qed
  then show ?thesis by (simp add: stripPadding_def)
qed

lemma encode_urlSafe:
  "(\<forall>c\<in>set (b64url_encode x). urlSafe c) \<and> (x \<noteq> [] \<longrightarrow> b64url_encode x \<noteq> [])"
proof -
  let ?ns = "utf8_units (map unat x)"
  have b: "\<forall>n\<in>set ?ns. n < 256"
    by (rule utf8_units_bytes) (simp add: unat_u16_bound)
  have m: "map unat (map toByte ?ns) = ?ns" by (rule map_unat_toByte [OF b])
  obtain body k where s: "base64_groups ?ns = body @ replicate k 61"
    "\<forall>c\<in>set body. \<exists>n<64. c = b64_char n" "?ns \<noteq> [] \<longrightarrow> body \<noteq> []"
    using base64_groups_shape [OF b] by blast
  let ?F = "\<lambda>c::u16. if (if c = 43 then 45 else c) = 47 then 95 else (if c = 43 then 45 else c)"
  have r: "replaceAll 47 95 (replaceAll 43 45 (body @ replicate k 61))
             = map ?F body @ replicate k 61"
    by (simp add: replaceAll_def comp_def)
  have u: "\<forall>c\<in>set (map ?F body). urlSafe c"
  proof
    fix c assume "c \<in> set (map ?F body)"
    then obtain d where d: "d \<in> set body" "c = ?F d" by auto
    then obtain n where "n < 64" "d = b64_char n" using s(2) by blast
    then have "urlSafe d \<or> d = 43 \<or> d = 47" using b64_char_cases by blast
    then show "urlSafe c"
      unfolding d(2) by (auto simp: urlSafe_def)
  qed
  then have n61: "61 \<notin> set (map ?F body)" using urlSafe_not by blast
  have e: "b64url_encode x = map ?F body"
    unfolding b64url_encode_def Buffer_toString_base64_def Buffer_from_utf8_def m s(1) r
    by (simp only: stripPadding_append_pad stripPadding_id [OF n61])
  have ne: "x \<noteq> [] \<Longrightarrow> ?ns \<noteq> []"
  proof (cases x)
    case Nil
    assume "x \<noteq> []" with Nil show ?thesis by simp
  next
    case (Cons y ys)
    have c: "utf8_cp cp \<noteq> []" for cp by (simp add: utf8_cp_def)
    show ?thesis
    proof (cases ys)
      case Nil
      with Cons c show ?thesis by simp
    next
      case (Cons z zs)
      with \<open>x = y # ys\<close> c show ?thesis by simp
    qed
  qed
  show ?thesis using u e s(3) ne by auto
qed

text \<open>
  C1. For every string without a lone surrogate, and so for every value of an HTTP
  \<open>Cookie\<close> header (its code units are the bytes 1 to 255), decoding the encoded
  credential gives the string back, \<open>b64url.decode(b64url.encode(x)) = x\<close>, and the
  encoded credential consists of letters, digits, \<open>-\<close> and \<open>_\<close> only: no \<open>+\<close>,
  \<open>/\<close> or \<open>=\<close> is left.
\<close>

theorem codec_roundtrip:
  "wellFormed x \<Longrightarrow>
     b64url_decode (b64url_encode x) = x \<and> (\<forall>c\<in>set (b64url_encode x). urlSafe c)"
proof -
  assume w: "wellFormed x"
  have "b64url_decode (b64url_encode x) = x"
    unfolding b64url_decode_def b64url_encode_def
    by (simp only: base64_roundtrip utf8_roundtrip [OF w])
  then show ?thesis using encode_urlSafe [of x] by blast
qed

theorem codec_roundtrip_witness:
  "wellFormed (js ''uu=a?>'')
     \<and> b64url_decode (b64url_encode (js ''uu=a?>'')) = js ''uu=a?>''
     \<and> list_all urlSafe (b64url_encode (js ''uu=a?>''))"
proof -
  have w: "wellFormed (js ''uu=a?>'')"
    by (simp add: wellFormed_def js_def isHigh_def isLow_def)
  show ?thesis using w codec_roundtrip [OF w] by (simp add: list_all_iff)
qed

lemma hashOf_segment:
  assumes "h \<noteq> []" and "47 \<notin> set h" and "46 \<notin> set h"
  shows "hashOf (47 # h @ 47 # r) = h"
proof -
  have "split 47 (47 # h @ 47 # r) = [] # h # split 47 r"
    using split_append_sep [OF assms(2), of r] by simp
  then show ?thesis using assms by (simp add: hashOf_def segsOf_def includesChar_def)
qed

lemma credential_recovered:
  assumes "wellFormed x" and "x \<noteq> []"
  shows "cookieOf (hashOf (js ''/'' @ b64url_encode x @ js ''/'' @ r)) = x"
proof -
  have u: "\<forall>c\<in>set (b64url_encode x). urlSafe c" and n: "b64url_encode x \<noteq> []"
    using encode_urlSafe [of x] assms(2) by blast+
  have "47 \<notin> set (b64url_encode x)" "46 \<notin> set (b64url_encode x)"
    using u urlSafe_not by blast+
  then have "hashOf (47 # b64url_encode x @ 47 # r) = b64url_encode x"
    using n by (intro hashOf_segment)
  then have "hashOf (js ''/'' @ b64url_encode x @ js ''/'' @ r) = b64url_encode x"
    by (simp add: js_def)
  moreover have "b64url_decode (b64url_encode x) = x"
    unfolding b64url_decode_def b64url_encode_def
    by (simp only: base64_roundtrip utf8_roundtrip [OF assms(1)])
  ultimately show ?thesis using n by (simp add: cookieOf_def)
qed

section \<open>Properties of the request handler\<close>

subsection \<open>Dispatch\<close>

lemma route_catalog:
  assumes "startsWith tail (js ''/catalog/'')"
  shows "route E hash tail = catalogRoute E hash tail"
    and "route0 E hash tail = catalogRoute0 E hash tail"
proof -
  obtain r where t: "tail = js ''/catalog/'' @ r"
    using assms unfolding startsWith_def prefix_def by blast
  have n: "tail \<noteq> js ''/''" "tail \<noteq> js ''/index.html''" "tail \<noteq> js ''/manifest.json''"
    unfolding t by (simp_all add: js_def)
  show "route E hash tail = catalogRoute E hash tail"
    unfolding route_def using n assms by simp
  show "route0 E hash tail = catalogRoute0 E hash tail"
    unfolding route0_def using n assms by simp
qed
lemma route_meta:
  assumes "startsWith tail (js ''/meta/'')"
  shows "route E hash tail = (Inr (metaRoute tail), [])"
    and "route0 E hash tail = (Inr (metaRoute tail), [])"
proof -
  obtain r where t: "tail = js ''/meta/'' @ r"
    using assms unfolding startsWith_def prefix_def by blast
  have n: "tail \<noteq> js ''/''" "tail \<noteq> js ''/index.html''" "tail \<noteq> js ''/manifest.json''"
    "\<not> startsWith tail (js ''/catalog/'')"
    unfolding t by (simp_all add: js_def startsWith_def)
  show "route E hash tail = (Inr (metaRoute tail), [])"
    unfolding route_def using n assms by simp
  show "route0 E hash tail = (Inr (metaRoute tail), [])"
    unfolding route0_def using n assms by simp
qed
lemma catalog_has_hash:
  assumes "startsWith (tailOf p) (js ''/catalog/'')"
  shows "hashOf p \<noteq> []"
proof
  assume h: "hashOf p = []"
  then have "tailOf p = p" by (simp add: tailOf_def)
  with assms obtain r where p: "p = js ''/catalog/'' @ r"
    unfolding startsWith_def prefix_def by auto
  have "segsOf p = js ''catalog'' # filter (\<lambda>s. s \<noteq> []) (split 47 r)"
    unfolding p segsOf_def by (simp add: js_def)
  then have "hashOf p = js ''catalog''"
    unfolding hashOf_def by (simp add: js_def includesChar_def)
  with h show False by (simp add: js_def)
qed

text \<open>
  C3. A catalog request whose path carries no credential segment,
  \<open>/catalog/movie/imdb-top-picks.json\<close>: the first segment \<open>catalog\<close> has no dot and is
  taken for the credential, the route tail is \<open>/movie/imdb-top-picks.json\<close>, and both
  revisions answer 404 \<open>Not found\<close> as plain text, with no outbound call. The answer
  400 of the catalog route is reached only with a credential segment (see
  \<open>catalog_has_hash\<close>).
\<close>

theorem catalog_without_credential:
  "handler (engine (\<lambda>c. Resolved None))
      \<lparr> req_method = js ''GET'', pathname = js ''/catalog/movie/imdb-top-picks.json'' \<rparr>
     = (Inr (send (Str (js ''Not found'')) (js ''text/plain'') 404), [])
   \<and> handler0 (engine (\<lambda>c. Resolved None))
      \<lparr> req_method = js ''GET'', pathname = js ''/catalog/movie/imdb-top-picks.json'' \<rparr>
     = (Inr (send (Str (js ''Not found'')) (js ''text/plain'') 404), [])"
proof -
  have h: "hashOf (js ''/catalog/movie/imdb-top-picks.json'') = js ''catalog''"
    by (simp add: js_def segsOf_def hashOf_def includesChar_def)
  have t: "tailOf (js ''/catalog/movie/imdb-top-picks.json'') = js ''/movie/imdb-top-picks.json''"
    unfolding tailOf_def h by (simp add: js_def segsOf_def)
  show ?thesis
    unfolding handler_def handler0_def route_def route0_def
    by (simp add: h t) (simp add: js_def startsWith_def)
qed

lemma catalog_empty_cookie:
  assumes "startsWith tail (js ''/catalog/'')" and "cookieOf hash = []"
  shows "at (split 47 tail) 3 = Some cid \<Longrightarrow> startsWith cid (js ''imdb-top-picks'') \<Longrightarrow>
           route E hash tail = (Inr (send (ErrorObj missingCookie) json 400), [])"
    and "at (split 47 tail) 3 = Some (js ''imdb-top-picks.json'') \<Longrightarrow>
           route0 E hash tail = (Inr (send (ErrorObj missingCookie) json 400), [])"
  using assms by (simp_all add: route_catalog catalogRoute_def catalogRoute0_def Let_def)

lemma empty_cookie_example:
  "cookieOf (js ''A'') = []"
  "handler E \<lparr> req_method = js ''GET'', pathname = js ''/A/catalog/movie/imdb-top-picks.json'' \<rparr>
     = (Inr (send (ErrorObj missingCookie) json 400), [])"
proof -
  show c: "cookieOf (js ''A'') = []"
    by (simp add: cookieOf_def b64url_decode_def js_def replaceAll_def pad_closed
        Buffer_from_base64_def sextets_replicate_pad unbase64_def Buffer_toString_utf8_def)
  have h: "hashOf (js ''/A/catalog/movie/imdb-top-picks.json'') = js ''A''"
    and t: "tailOf (js ''/A/catalog/movie/imdb-top-picks.json'') = js ''/catalog/movie/imdb-top-picks.json''"
    by (simp_all add: js_def segsOf_def hashOf_def tailOf_def includesChar_def)
  have s: "startsWith (js ''/catalog/movie/imdb-top-picks.json'') (js ''/catalog/'')"
    by (simp add: js_def startsWith_def)
  have i: "at (split 47 (js ''/catalog/movie/imdb-top-picks.json'')) 3 = Some (js ''imdb-top-picks.json'')"
    by (simp add: js_def at_def)
  have p: "startsWith (js ''imdb-top-picks.json'') (js ''imdb-top-picks'')"
    by (simp add: js_def startsWith_def)
  show "handler E \<lparr> req_method = js ''GET'', pathname = js ''/A/catalog/movie/imdb-top-picks.json'' \<rparr>
     = (Inr (send (ErrorObj missingCookie) json 400), [])"
    unfolding handler_def using catalog_empty_cookie(1) [OF s c i p, of E]
    by (simp add: h t) (simp add: js_def)
qed

text \<open>
  C10. A request whose route tail begins with \<open>/catalog/\<close> and has no catalog-id
  segment: the revision with the genre filter calls \<open>startsWith\<close> on \<open>undefined\<close>
  outside any \<open>try\<close> and ends in a \<open>TypeError\<close> without a response; the revision
  with the fixed catalog answers 404 \<open>Unknown catalog\<close>.
\<close>

theorem catalog_without_id:
  assumes "req_method req \<noteq> js ''OPTIONS''"
    and "startsWith (tailOf (pathname req)) (js ''/catalog/'')"
    and "at (split 47 (tailOf (pathname req))) 3 = None"
  shows "handler E req = (Inl (TypeError (js ''startsWith'')), [])
       \<and> handler0 E req = (Inr (send (ErrorObj (js ''Unknown catalog'')) json 404), [])"
  using assms
  by (simp add: handler_def handler0_def route_catalog catalogRoute_def catalogRoute0_def)

theorem catalog_without_id_witness:
  "req_method \<lparr> req_method = js ''GET'', pathname = js ''/YQ/catalog/movie'' \<rparr> \<noteq> js ''OPTIONS''
   \<and> startsWith (tailOf (pathname \<lparr> req_method = js ''GET'', pathname = js ''/YQ/catalog/movie'' \<rparr>))
         (js ''/catalog/'')
   \<and> at (split 47 (tailOf (pathname \<lparr> req_method = js ''GET'', pathname = js ''/YQ/catalog/movie'' \<rparr>))) 3 = None
   \<and> handler (engine (\<lambda>c. Resolved None)) \<lparr> req_method = js ''GET'', pathname = js ''/YQ/catalog/movie'' \<rparr>
         = (Inl (TypeError (js ''startsWith'')), [])
   \<and> handler0 (engine (\<lambda>c. Resolved None)) \<lparr> req_method = js ''GET'', pathname = js ''/YQ/catalog/movie'' \<rparr>
         = (Inr (send (ErrorObj (js ''Unknown catalog'')) json 404), [])"
proof -
  let ?r = "\<lparr> req_method = js ''GET'', pathname = js ''/YQ/catalog/movie'' \<rparr>"
  have t: "tailOf (js ''/YQ/catalog/movie'') = js ''/catalog/movie''"
    by (simp add: js_def segsOf_def hashOf_def tailOf_def includesChar_def)
  have a: "req_method ?r \<noteq> js ''OPTIONS''" by (simp add: js_def)
  have b: "startsWith (tailOf (pathname ?r)) (js ''/catalog/'')"
    by (simp add: t) (simp add: js_def startsWith_def)
  have c: "at (split 47 (tailOf (pathname ?r))) 3 = None"
    by (simp add: t) (simp add: js_def at_def)
  show ?thesis
    using a b c catalog_without_id [OF a b c, of "engine (\<lambda>c. Resolved None)"] by simp
qed

lemma isImdbId_pattern:
  "isImdbId s \<longleftrightarrow> (\<exists>ds. s = js ''tt'' @ ds \<and> ds \<noteq> [] \<and> (\<forall>d\<in>set ds. 48 \<le> d \<and> d \<le> 57))"
proof (cases s)
  case Nil
  then show ?thesis by (simp add: js_def)
next
  case (Cons a r)
  show ?thesis
  proof (cases r)
    case Nil
    with Cons show ?thesis by (simp add: js_def)
  next
    case (Cons b q)
    show ?thesis
    proof (cases q)
      case Nil
      with \<open>s = a # r\<close> \<open>r = b # q\<close> show ?thesis by (auto simp: js_def)
    next
      case (Cons d ds)
      with \<open>s = a # r\<close> \<open>r = b # q\<close> show ?thesis
        by (auto simp: js_def isDigit_def list_all_iff)
    qed
  qed
qed

text \<open>
  C8. For every request whose route tail begins with \<open>/meta/\<close>, in both revisions:
  the id is the fourth part of the tail without a trailing \<open>.json\<close>; the handler
  answers 400 \<open>Bad IMDb id\<close> exactly when the id is not \<open>tt\<close> followed by one or more
  digits, and otherwise 200 with the placeholder meta of that id and its poster URL;
  there is no outbound call and no exception.
\<close>

theorem meta_route:
  assumes "req_method req \<noteq> js ''OPTIONS''"
    and "startsWith (tailOf (pathname req)) (js ''/meta/'')"
    and "parts = split 47 (tailOf (pathname req))"
    and "imdbId = stripJson (case at parts 3 of None \<Rightarrow> [] | Some f \<Rightarrow> f)"
  shows "handler E req =
           (Inr (if isImdbId imdbId
                 then send (MetaObj \<lparr> stub_id = imdbId, stub_type = at parts 2,
                              stub_name = js ''IMDb title '' @ imdbId,
                              stub_poster = js ''https://img.omdbapi.com/?i='' @ imdbId
                                              @ js ''&apikey=YOUR_OMDB_API_KEY'' \<rparr>) json 200
                 else send (ErrorObj (js ''Bad IMDb id'')) json 400), [])
       \<and> handler0 E req = handler E req
       \<and> (isImdbId imdbId \<longleftrightarrow>
            (\<exists>ds. imdbId = js ''tt'' @ ds \<and> ds \<noteq> [] \<and> (\<forall>d\<in>set ds. 48 \<le> d \<and> d \<le> 57)))
       \<and> ((\<exists>r. handler E req = (Inr r, []) \<and> statusCode r = 400
                \<and> body r = Stringified (ErrorObj (js ''Bad IMDb id'')))
            \<longleftrightarrow> \<not> isImdbId imdbId)"
proof -
  have h: "handler E req =
           (Inr (if isImdbId imdbId
                 then send (MetaObj \<lparr> stub_id = imdbId, stub_type = at parts 2,
                              stub_name = js ''IMDb title '' @ imdbId,
                              stub_poster = js ''https://img.omdbapi.com/?i='' @ imdbId
                                              @ js ''&apikey=YOUR_OMDB_API_KEY'' \<rparr>) json 200
                 else send (ErrorObj (js ''Bad IMDb id'')) json 400), [])"
    using assms by (simp add: handler_def route_meta metaRoute_def Let_def)
  have h0: "handler0 E req = handler E req"
    using assms(1,2) by (simp add: handler_def handler0_def route_meta)
  have s: "(\<exists>r. handler E req = (Inr r, []) \<and> statusCode r = 400
                \<and> body r = Stringified (ErrorObj (js ''Bad IMDb id'')))
            \<longleftrightarrow> \<not> isImdbId imdbId"
    unfolding h by (simp add: send_def json_def startsWith_def)
  show ?thesis using h h0 s isImdbId_pattern [of imdbId] by blast
qed

theorem meta_route_witness:
  "handler (engine (\<lambda>c. Resolved None))
      \<lparr> req_method = js ''GET'', pathname = js ''/YQ/meta/movie/tt1234567.json'' \<rparr>
     = (Inr (send (MetaObj \<lparr> stub_id = js ''tt1234567'', stub_type = Some (js ''movie''),
                     stub_name = js ''IMDb title tt1234567'',
                     stub_poster = js ''https://img.omdbapi.com/?i=tt1234567&apikey=YOUR_OMDB_API_KEY'' \<rparr>)
               json 200), [])
   \<and> handler (engine (\<lambda>c. Resolved None))
      \<lparr> req_method = js ''GET'', pathname = js ''/YQ/meta/movie/abc123.json'' \<rparr>
     = (Inr (send (ErrorObj (js ''Bad IMDb id'')) json 400), [])"
proof -
  let ?E = "engine (\<lambda>c. Resolved None)"
  let ?r = "\<lparr> req_method = js ''GET'', pathname = js ''/YQ/meta/movie/tt1234567.json'' \<rparr>"
  let ?q = "\<lparr> req_method = js ''GET'', pathname = js ''/YQ/meta/movie/abc123.json'' \<rparr>"
  have t: "tailOf (pathname ?r) = js ''/meta/movie/tt1234567.json''"
    "tailOf (pathname ?q) = js ''/meta/movie/abc123.json''"
    by (simp_all add: js_def segsOf_def hashOf_def tailOf_def includesChar_def)
  have a: "req_method ?r \<noteq> js ''OPTIONS''" "req_method ?q \<noteq> js ''OPTIONS''"
    by (simp_all add: js_def)
  have b: "startsWith (tailOf (pathname ?r)) (js ''/meta/'')"
    "startsWith (tailOf (pathname ?q)) (js ''/meta/'')"
    unfolding t by (simp_all add: js_def startsWith_def)
  have p: "split 47 (js ''/meta/movie/tt1234567.json'') = [[], js ''meta'', js ''movie'', js ''tt1234567.json'']"
    "split 47 (js ''/meta/movie/abc123.json'') = [[], js ''meta'', js ''movie'', js ''abc123.json'']"
    by (simp_all add: js_def)
  have i: "stripJson (js ''tt1234567.json'') = js ''tt1234567''"
    "stripJson (js ''abc123.json'') = js ''abc123''"
    by (simp_all add: js_def stripJson_def suffix_def)
  have d: "isImdbId (js ''tt1234567'')" "\<not> isImdbId (js ''abc123'')"
    by (simp_all add: js_def isDigit_def)
  have "handler ?E ?r =
     (Inr (send (MetaObj \<lparr> stub_id = js ''tt1234567'', stub_type = Some (js ''movie''),
                     stub_name = js ''IMDb title '' @ js ''tt1234567'',
                     stub_poster = js ''https://img.omdbapi.com/?i='' @ js ''tt1234567''
                                     @ js ''&apikey=YOUR_OMDB_API_KEY'' \<rparr>)
               json 200), [])"
    using meta_route [OF a(1) b(1) refl refl, of ?E] unfolding t p by (simp add: at_def i d)
  moreover have "handler ?E ?q = (Inr (send (ErrorObj (js ''Bad IMDb id'')) json 400), [])"
    using meta_route [OF a(2) b(2) refl refl, of ?E] unfolding t p by (simp add: at_def i d)
  ultimately show ?thesis by (simp add: js_def)
qed

lemma send_status: "statusCode (send b t c) = c"
  by (simp add: send_def)

lemma send_code_neq: "c \<noteq> c' \<Longrightarrow> send b t c \<noteq> send b' t' c'"
  by (metis send_status)

text \<open>
  C7, as amended. For every request whose route tail begins with \<open>/catalog/\<close>: in the
  revision with the genre filter, when the tail has a catalog-id segment, the answer is
  404 \<open>Unknown catalog\<close> exactly when the id does not start with \<open>imdb-top-picks\<close>; in
  the revision with the fixed catalog the answer is 404 \<open>Unknown catalog\<close> exactly when
  that segment is not \<open>imdb-top-picks.json\<close>. The counterexample is an id that starts
  with the prefix and is refused by the revision with the fixed catalog.
\<close>

theorem catalog_validation:
  assumes "req_method req \<noteq> js ''OPTIONS''"
    and "startsWith (tailOf (pathname req)) (js ''/catalog/'')"
  shows "(\<forall>cid. at (split 47 (tailOf (pathname req))) 3 = Some cid \<longrightarrow>
            (handler E req = (Inr (send (ErrorObj (js ''Unknown catalog'')) json 404), [])
               \<longleftrightarrow> \<not> startsWith cid (js ''imdb-top-picks'')))
       \<and> (handler0 E req = (Inr (send (ErrorObj (js ''Unknown catalog'')) json 404), [])
            \<longleftrightarrow> at (split 47 (tailOf (pathname req))) 3 \<noteq> Some (js ''imdb-top-picks.json''))"
proof -
  have n: "send b json 400 \<noteq> send b' json 404" "send b json 200 \<noteq> send b' json 404"
    "send b json 503 \<noteq> send b' json 404" for b b'
    by (rule send_code_neq, simp)+
  have h: "handler E req = catalogRoute E (hashOf (pathname req)) (tailOf (pathname req))"
    and h0: "handler0 E req = catalogRoute0 E (hashOf (pathname req)) (tailOf (pathname req))"
    using assms by (simp_all add: handler_def handler0_def route_catalog)
  have 1: "handler E req = (Inr (send (ErrorObj (js ''Unknown catalog'')) json 404), [])
               \<longleftrightarrow> \<not> startsWith cid (js ''imdb-top-picks'')"
    if "at (split 47 (tailOf (pathname req))) 3 = Some cid" for cid
    unfolding h catalogRoute_def using that
    by (simp add: Let_def n split: sum.splits)
  have 2: "handler0 E req = (Inr (send (ErrorObj (js ''Unknown catalog'')) json 404), [])
            \<longleftrightarrow> at (split 47 (tailOf (pathname req))) 3 \<noteq> Some (js ''imdb-top-picks.json'')"
    unfolding h0 catalogRoute0_def
    by (simp add: Let_def n split: sum.splits)
  show ?thesis using 1 2 by blast
qed

theorem catalog_validation_counterexample:
  "startsWith (js ''imdb-top-picks'') (js ''imdb-top-picks'')
   \<and> at (split 47 (tailOf (js ''/YQ/catalog/movie/imdb-top-picks/genre=Action.json''))) 3
        = Some (js ''imdb-top-picks'')
   \<and> handler0 (engine (\<lambda>c. Resolved None))
        \<lparr> req_method = js ''GET'', pathname = js ''/YQ/catalog/movie/imdb-top-picks/genre=Action.json'' \<rparr>
      = (Inr (send (ErrorObj (js ''Unknown catalog'')) json 404), [])"
proof -
  have t: "tailOf (js ''/YQ/catalog/movie/imdb-top-picks/genre=Action.json'')
             = js ''/catalog/movie/imdb-top-picks/genre=Action.json''"
    by (simp add: js_def segsOf_def hashOf_def tailOf_def includesChar_def)
  have p: "split 47 (js ''/catalog/movie/imdb-top-picks/genre=Action.json'')
             = [[], js ''catalog'', js ''movie'', js ''imdb-top-picks'', js ''genre=Action.json'']"
    by (simp add: js_def)
  have s: "startsWith (js ''/catalog/movie/imdb-top-picks/genre=Action.json'') (js ''/catalog/'')"
    by (simp add: js_def startsWith_def)
  have "handler0 (engine (\<lambda>c. Resolved None))
        \<lparr> req_method = js ''GET'', pathname = js ''/YQ/catalog/movie/imdb-top-picks/genre=Action.json'' \<rparr>
      = (Inr (send (ErrorObj (js ''Unknown catalog'')) json 404), [])"
    unfolding handler0_def using s
    by (simp add: t route_catalog catalogRoute0_def p at_def) (simp add: js_def)
  moreover have "startsWith (js ''imdb-top-picks'') (js ''imdb-top-picks'')"
    by (simp add: startsWith_def)
  ultimately show ?thesis unfolding t p by (simp add: at_def)
qed

theorem catalog_validation_witness:
  "req_method \<lparr> req_method = js ''GET'', pathname = js ''/YQ/catalog/movie/other.json'' \<rparr> \<noteq> js ''OPTIONS''
   \<and> startsWith (tailOf (js ''/YQ/catalog/movie/other.json'')) (js ''/catalog/'')
   \<and> handler (engine (\<lambda>c. Resolved None))
        \<lparr> req_method = js ''GET'', pathname = js ''/YQ/catalog/movie/other.json'' \<rparr>
      = (Inr (send (ErrorObj (js ''Unknown catalog'')) json 404), [])
   \<and> handler0 (engine (\<lambda>c. Resolved None))
        \<lparr> req_method = js ''GET'', pathname = js ''/YQ/catalog/movie/other.json'' \<rparr>
      = (Inr (send (ErrorObj (js ''Unknown catalog'')) json 404), [])"
proof -
  let ?E = "engine (\<lambda>c. Resolved None)"
  let ?r = "\<lparr> req_method = js ''GET'', pathname = js ''/YQ/catalog/movie/other.json'' \<rparr>"
  have t: "tailOf (js ''/YQ/catalog/movie/other.json'') = js ''/catalog/movie/other.json''"
    by (simp add: js_def segsOf_def hashOf_def tailOf_def includesChar_def)
  have p: "split 47 (js ''/catalog/movie/other.json'') = [[], js ''catalog'', js ''movie'', js ''other.json'']"
    by (simp add: js_def)
  have a: "req_method ?r \<noteq> js ''OPTIONS''" by (simp add: js_def)
  have b: "startsWith (tailOf (pathname ?r)) (js ''/catalog/'')"
    by (simp add: t) (simp add: js_def startsWith_def)
  have c: "at (split 47 (tailOf (pathname ?r))) 3 = Some (js ''other.json'')"
    by (simp add: t p at_def)
  have d: "\<not> startsWith (js ''other.json'') (js ''imdb-top-picks'')"
    "js ''other.json'' \<noteq> js ''imdb-top-picks.json''"
    by (simp_all add: js_def startsWith_def)
  show ?thesis
    using a b c d catalog_validation [OF a b, of ?E] by simp
qed

section \<open>Properties of the upstream fetch and of the catalog items\<close>

lemma search_iff: "search p s \<longleftrightarrow> (\<exists>a b. s = a @ p @ b)"
proof (induction s)
  case Nil
  show ?case by simp
next
  case (Cons x xs)
  have "(\<exists>a b. x # xs = a @ p @ b) \<longleftrightarrow> prefix p (x # xs) \<or> (\<exists>a b. xs = a @ p @ b)"
  proof
    assume "\<exists>a b. x # xs = a @ p @ b"
    then obtain a b where e: "x # xs = a @ p @ b" by blast
    show "prefix p (x # xs) \<or> (\<exists>a b. xs = a @ p @ b)"
    proof (cases a)
      case Nil
      with e show ?thesis by (simp add: prefix_def)
    next
      case (Cons y ys)
      with e have "xs = ys @ p @ b" by simp
      then show ?thesis by blast
    qed
  next
    assume "prefix p (x # xs) \<or> (\<exists>a b. xs = a @ p @ b)"
    then show "\<exists>a b. x # xs = a @ p @ b"
    proof
      assume "prefix p (x # xs)"
      then obtain b where "x # xs = p @ b" by (auto simp: prefix_def)
      then have "x # xs = [] @ p @ b" by simp
      then show ?thesis by blast
    next
      assume "\<exists>a b. xs = a @ p @ b"
      then obtain a b where "xs = a @ p @ b" by blast
      then have "x # xs = (x # a) @ p @ b" by simp
      then show ?thesis by blast
    qed
  qed
  with Cons show ?case by simp
qed

lemma matchesIgnoreCase_iff:
  "matchesIgnoreCase s p \<longleftrightarrow>
     (\<exists>a w b. s = a @ w @ b \<and> map canonicalize w = map canonicalize p)"
proof -
  have "(\<exists>a' b'. map canonicalize s = a' @ map canonicalize p @ b')
          \<longleftrightarrow> (\<exists>a w b. s = a @ w @ b \<and> map canonicalize w = map canonicalize p)"
  proof
    assume "\<exists>a' b'. map canonicalize s = a' @ map canonicalize p @ b'"
    then obtain a' b' where "map canonicalize s = a' @ map canonicalize p @ b'" by blast
    then obtain a r where 1: "s = a @ r" "map canonicalize p @ b' = map canonicalize r"
      unfolding map_eq_append_conv by blast
    then obtain w b where "r = w @ b" "map canonicalize w = map canonicalize p"
      unfolding append_eq_map_conv by metis
    with 1 show "\<exists>a w b. s = a @ w @ b \<and> map canonicalize w = map canonicalize p" by blast
  next
    assume "\<exists>a w b. s = a @ w @ b \<and> map canonicalize w = map canonicalize p"
    then obtain a w b where "s = a @ w @ b" "map canonicalize w = map canonicalize p" by blast
    then have "map canonicalize s = map canonicalize a @ map canonicalize p @ map canonicalize b"
      by simp
    then show "\<exists>a' b'. map canonicalize s = a' @ map canonicalize p @ b'" by blast
  qed
  then show ?thesis by (simp add: matchesIgnoreCase_def search_iff)
qed

text \<open>
  C2. For every upstream answer whose edge list is missing or empty and which carries
  an error list (empty or not), both \<open>fetchImdbData\<close> and \<open>scrape\<close> fail; the message
  is \<open>Login required or cookie expired.\<close> exactly when the messages joined by
  \<open>, \<close> have a substring equal to \<open>auth\<close> or \<open>login\<close> up to ASCII case, and otherwise
  it is \<open>IMDb GraphQL error: \<close> followed by the joined messages.
\<close>

theorem upstream_errors:
  assumes "post E cookie = Resolved d"
    and "optEdges d = None \<or> optEdges d = Some []"
    and "optErrors d = Some es"
    and "msg = joinedMessages es"
    and "login = (matchesIgnoreCase msg (js ''auth'') \<or> matchesIgnoreCase msg (js ''login''))"
  shows "fetchImdbData E cookie =
           Inl (Error (if login then js ''Login required or cookie expired.''
                       else js ''IMDb GraphQL error: '' @ msg))
       \<and> scrape E cookie =
           Inl (Error (if login then js ''Login required or cookie expired.''
                       else js ''IMDb GraphQL error: '' @ msg))
       \<and> (fetchImdbData E cookie = Inl (Error (js ''Login required or cookie expired.''))
            \<longleftrightarrow> login)
       \<and> (login \<longleftrightarrow>
            (\<exists>a w b. msg = a @ w @ b \<and>
               (map canonicalize w = map canonicalize (js ''auth'')
                \<or> map canonicalize w = map canonicalize (js ''login''))))"
proof -
  have f: "fetchImdbData E cookie =
           Inl (Error (if login then js ''Login required or cookie expired.''
                       else js ''IMDb GraphQL error: '' @ msg))"
    using assms by (auto simp: fetchImdbData_def errorFor_def)
  have s: "scrape E cookie =
           Inl (Error (if login then js ''Login required or cookie expired.''
                       else js ''IMDb GraphQL error: '' @ msg))"
    using assms by (auto simp: scrape_def errorFor_def Let_def)
  have n: "js ''IMDb GraphQL error: '' @ msg \<noteq> js ''Login required or cookie expired.''"
    by (simp add: js_def)
  have i: "fetchImdbData E cookie = Inl (Error (js ''Login required or cookie expired.''))
            \<longleftrightarrow> login"
    unfolding f using n by simp
  have c: "login \<longleftrightarrow>
            (\<exists>a w b. msg = a @ w @ b \<and>
               (map canonicalize w = map canonicalize (js ''auth'')
                \<or> map canonicalize w = map canonicalize (js ''login'')))"
    unfolding assms(5) matchesIgnoreCase_iff by blast
  show ?thesis using f s i c by blast
qed

theorem upstream_errors_witness:
  "fetchImdbData
     (engine (\<lambda>c. Resolved (Some \<lparr> data = Edges (Some []),
                                   errors = Some [\<lparr> message = Some (js ''Authentication required'') \<rparr>] \<rparr>)))
     (js ''a=1'')
     = Inl (Error (js ''Login required or cookie expired.''))
   \<and> fetchImdbData
     (engine (\<lambda>c. Resolved (Some \<lparr> data = NoData,
                                   errors = Some [\<lparr> message = Some (js ''Bad'') \<rparr>,
                                                  \<lparr> message = Some (js ''hash'') \<rparr>] \<rparr>)))
     (js ''a=1'')
     = Inl (Error (js ''IMDb GraphQL error: Bad, hash''))"
proof -
  let ?p = "\<lparr> data = Edges (Some []),
              errors = Some [\<lparr> message = Some (js ''Authentication required'') \<rparr>] \<rparr>"
  let ?q = "\<lparr> data = NoData,
              errors = Some [\<lparr> message = Some (js ''Bad'') \<rparr>, \<lparr> message = Some (js ''hash'') \<rparr>] \<rparr>"
  have m: "joinedMessages [\<lparr> message = Some (js ''Authentication required'') \<rparr>]
             = js ''Authentication required''"
    "joinedMessages [\<lparr> message = Some (js ''Bad'') \<rparr>, \<lparr> message = Some (js ''hash'') \<rparr>]
             = js ''Bad, hash''"
    by (simp_all add: joinedMessages_def js_def)
  have a: "matchesIgnoreCase (js ''Authentication required'') (js ''auth'')"
    by (simp add: matchesIgnoreCase_def js_def canonicalize_def)
  have b: "\<not> matchesIgnoreCase (js ''Bad, hash'') (js ''auth'')"
    "\<not> matchesIgnoreCase (js ''Bad, hash'') (js ''login'')"
    by (simp_all add: matchesIgnoreCase_def js_def canonicalize_def)
  have 1: "fetchImdbData (engine (\<lambda>c. Resolved (Some ?p))) (js ''a=1'')
             = Inl (Error (js ''Login required or cookie expired.''))"
    using upstream_errors [of "engine (\<lambda>c. Resolved (Some ?p))" "js ''a=1''" "Some ?p"
        "[\<lparr> message = Some (js ''Authentication required'') \<rparr>]" _ True]
    by (simp add: engine_def optEdges_def optErrors_def m a)
  have 2: "fetchImdbData (engine (\<lambda>c. Resolved (Some ?q))) (js ''a=1'')
             = Inl (Error (js ''IMDb GraphQL error: Bad, hash''))"
    using upstream_errors [of "engine (\<lambda>c. Resolved (Some ?q))" "js ''a=1''" "Some ?q"
        "[\<lparr> message = Some (js ''Bad'') \<rparr>, \<lparr> message = Some (js ''hash'') \<rparr>]" _ False]
    by (simp add: engine_def optEdges_def optErrors_def m b) (simp add: js_def)
  show ?thesis using 1 2 by simp
qed

lemma genreTexts_present:
  assumes "\<forall>g\<in>set gs. \<exists>x. g = Genre x"
  shows "\<exists>ts. genreTexts gs = Inr ts \<and> truthy ts = List.map_filter entryText gs"
  using assms
proof (induction gs)
  case Nil
  show ?case by (simp add: List.map_filter_simps)
next
  case (Cons g gs)
  then obtain x where g: "g = Genre x" by auto
  from Cons obtain ts where ts: "genreTexts gs = Inr ts" "truthy ts = List.map_filter entryText gs"
    by auto
  show ?case
  proof (cases x)
    case None
    with g ts show ?thesis by (simp add: List.map_filter_simps)
  next
    case (Some t)
    with g ts show ?thesis by (simp add: List.map_filter_simps)
  qed
qed

text \<open>
  C5, as amended. For every edge with a title node and a non-empty title id whose genre
  entries all carry a \<open>genre\<close> object, \<open>buildMeta\<close> produces an item whose \<open>genres\<close>
  are the non-empty genre texts of the title, in their order and with repetitions
  kept, and the empty list when there are none; the items of \<open>scrape\<close> (the revision
  with the fixed catalog) have no \<open>genres\<close> field. The counterexample: an entry
  without a \<open>genre\<close> object makes \<open>buildMeta\<close> throw, and an item of \<open>scrape\<close>
  has no \<open>genres\<close>.
\<close>

theorem buildMeta_genres:
  assumes "node_title e = Some t" and "title_id t = Some i" and "i \<noteq> []"
    and "gs = (case titleGenres_genres t of None \<Rightarrow> [] | Some xs \<Rightarrow> xs)"
    and "\<forall>g\<in>set gs. \<exists>x. g = Genre x"
  shows "(\<exists>m. buildMeta e = Inr (Some m) \<and> meta_id m = i
             \<and> genres m = Some (List.map_filter entryText gs)
             \<and> (gs = [] \<longrightarrow> genres m = Some []))
       \<and> (\<exists>m. scrapeItem e = Some m \<and> meta_id m = i \<and> genres m = None)"
proof -
  obtain ts where ts: "genreTexts gs = Inr ts" "truthy ts = List.map_filter entryText gs"
    using genreTexts_present [OF assms(5)] by blast
  have "\<exists>m. buildMeta e = Inr (Some m) \<and> meta_id m = i
             \<and> genres m = Some (List.map_filter entryText gs)
             \<and> (gs = [] \<longrightarrow> genres m = Some [])"
  proof -
    have g: "(case titleGenres_genres t of None \<Rightarrow> [] | Some xs \<Rightarrow> xs) = gs"
      using assms(4) by simp
    show ?thesis
      unfolding buildMeta_def using assms(1-3) ts
      by (simp add: g List.map_filter_simps)
  qed
  moreover have "\<exists>m. scrapeItem e = Some m \<and> meta_id m = i \<and> genres m = None"
    using assms(1-3) by (simp add: scrapeItem_def)
  ultimately show ?thesis by blast
qed
theorem buildMeta_genres_counterexample:
  "buildMeta \<lparr> node_title = Some
       \<lparr> title_id = Some (js ''tt1''), titleType_id = None, titleText_text = None,
         originalTitleText_text = None, primaryImage_url = None, releaseYear_year = None,
         titleGenres_genres = Some [Genre (Some (js ''Drama'')), NoGenre],
         ratingsSummary_aggregateRating = None \<rparr> \<rparr>
     = Inl (TypeError (js ''text''))
   \<and> map_option genres (scrapeItem (sampleEdge (js ''tt1'') (js ''movie'') [js ''Drama'']))
     = Some None"
  by (simp add: buildMeta_def scrapeItem_def sampleEdge_def js_def)

theorem buildMeta_genres_witness:
  "node_title (sampleEdge (js ''tt1'') (js ''movie'') [js ''Drama'', js ''Action'', js ''Drama''])
     \<noteq> None
   \<and> (\<exists>m. buildMeta (sampleEdge (js ''tt1'') (js ''movie'') [js ''Drama'', js ''Action'', js ''Drama''])
            = Inr (Some m)
          \<and> meta_id m = js ''tt1''
          \<and> genres m = Some [js ''Drama'', js ''Action'', js ''Drama''])
   \<and> (\<exists>m. buildMeta (sampleEdge (js ''tt2'') (js ''movie'') []) = Inr (Some m)
          \<and> genres m = Some [])"
proof -
  let ?gs = "[js ''Drama'', js ''Action'', js ''Drama'']"
  let ?t = "\<lambda>i gs. \<lparr> title_id = Some i, titleType_id = Some (js ''movie''), titleText_text = None,
           originalTitleText_text = None, primaryImage_url = None, releaseYear_year = None,
           titleGenres_genres = Some (map (\<lambda>g. Genre (Some g)) gs),
           ratingsSummary_aggregateRating = None \<rparr>"
  have 1: "node_title (sampleEdge (js ''tt1'') (js ''movie'') ?gs) = Some (?t (js ''tt1'') ?gs)"
    "node_title (sampleEdge (js ''tt2'') (js ''movie'') []) = Some (?t (js ''tt2'') [])"
    by (simp_all add: sampleEdge_def)
  have 2: "title_id (?t (js ''tt1'') ?gs) = Some (js ''tt1'')"
    "title_id (?t (js ''tt2'') []) = Some (js ''tt2'')" by simp_all
  have 3: "js ''tt1'' \<noteq> []" "js ''tt2'' \<noteq> []" by (simp_all add: js_def)
  have 4: "map (\<lambda>g. Genre (Some g)) ?gs
             = (case titleGenres_genres (?t (js ''tt1'') ?gs) of None \<Rightarrow> [] | Some xs \<Rightarrow> xs)"
    "map (\<lambda>g. Genre (Some g)) []
             = (case titleGenres_genres (?t (js ''tt2'') []) of None \<Rightarrow> [] | Some xs \<Rightarrow> xs)"
    by simp_all
  have 5: "\<forall>g\<in>set (map (\<lambda>g. Genre (Some g)) ?gs). \<exists>x. g = Genre x"
    "\<forall>g\<in>set (map (\<lambda>g. Genre (Some g)) ([]::jsstring list)). \<exists>x. g = Genre x" by simp_all
  have 6: "List.map_filter entryText (map (\<lambda>g. Genre (Some g)) ?gs) = ?gs"
    by (simp add: List.map_filter_simps js_def)
  from buildMeta_genres [OF 1(1) 2(1) 3(1) 4(1) 5(1)] buildMeta_genres [OF 1(2) 2(2) 3(2) 4(2) 5(2)]
  show ?thesis unfolding 6 by (auto simp: sampleEdge_def)
qed

lemma set_setAdd: "set (setAdd s x) = insert x (set s)"
  by (auto simp: setAdd_def)

lemma distinct_setAdd: "distinct s \<Longrightarrow> distinct (setAdd s x)"
  by (simp add: setAdd_def)

lemma foldl_entries:
  assumes "distinct s"
  shows "distinct (foldl (\<lambda>s g. case entryText g of None \<Rightarrow> s | Some t \<Rightarrow> setAdd s t) s gs)
       \<and> set (foldl (\<lambda>s g. case entryText g of None \<Rightarrow> s | Some t \<Rightarrow> setAdd s t) s gs)
           = set s \<union> {t. \<exists>g\<in>set gs. entryText g = Some t}"
  using assms
proof (induction gs arbitrary: s)
  case Nil
  then show ?case by simp
next
  case (Cons g gs)
  show ?case
  proof (cases "entryText g")
    case None
    with Cons.IH [OF Cons.prems] show ?thesis by auto
  next
    case (Some t)
    with Cons.IH [OF distinct_setAdd [OF Cons.prems, of t]] show ?thesis
      by (auto simp: set_setAdd)
  qed
qed

lemma addGenres_facts:
  assumes "distinct s"
  shows "distinct (addGenres s e)"
    and "set (addGenres s e) = set s \<union> {t. \<exists>g\<in>set (edgeGenres e). entryText g = Some t}"
  using foldl_entries [OF assms, of "edgeGenres e"] by (simp_all add: addGenres_def)

lemma foldl_addGenres:
  assumes "distinct s"
  shows "distinct (foldl addGenres s es)
       \<and> set (foldl addGenres s es)
           = set s \<union> {t. \<exists>e\<in>set es. \<exists>g\<in>set (edgeGenres e). entryText g = Some t}"
  using assms
proof (induction es arbitrary: s)
  case Nil
  then show ?case by simp
next
  case (Cons e es)
  from Cons.IH [OF addGenres_facts(1) [OF Cons.prems, of e]] addGenres_facts(2) [OF Cons.prems, of e]
  show ?case by auto
qed

lemma extractGenres_facts:
  "sorted (extractGenresFromData d)" "distinct (extractGenresFromData d)"
  "set (extractGenresFromData d) = allGenres d"
  using foldl_addGenres [of "[]" "case optEdges d of None \<Rightarrow> [] | Some xs \<Rightarrow> xs"]
  by (simp_all add: extractGenresFromData_def allGenres_def)

lemma withGenres_base:
  "map (withGenres gs) (catalogs BASE_MANIFEST) =
     [\<lparr> catalog_id = js ''imdb-top-picks'', catalog_type = js ''movie'',
        catalog_name = js ''IMDB Top Picks '' @ [0x2013] @ js '' Movies'',
        catalog_extra = Some [genreExtra\<lparr> options := gs \<rparr>] \<rparr>,
      \<lparr> catalog_id = js ''imdb-top-picks'', catalog_type = js ''series'',
        catalog_name = js ''IMDB Top Picks '' @ [0x2013] @ js '' Series'',
        catalog_extra = Some [genreExtra\<lparr> options := gs \<rparr>] \<rparr>]"
  by (simp add: BASE_MANIFEST_def withGenres_def)

text \<open>
  C4. For every manifest request with a credential segment whose cookie is non-empty
  and whose upstream fetch succeeds, the manifest returned has the base id followed by
  \<open>.\<close> and the credential segment, and the genre options of each of its two catalogs
  are the sorted (by code units), duplicate-free list of the non-empty genre texts of
  all edges; genres Drama, Action, Action give the options Action, Drama.
\<close>

theorem manifest_with_credential:
  assumes "req_method req \<noteq> js ''OPTIONS''"
    and "tailOf (pathname req) = js ''/manifest.json''"
    and "hashOf (pathname req) = hash"
    and "cookieOf hash = cookie" and "cookie \<noteq> []"
    and "fetchImdbData E cookie = Inr d"
  shows "\<exists>m. handler E req = (Inr (send (ManifestObj m) json 200), [cookie])
           \<and> manifest_id m = js ''community.imdb-top-picks'' @ js ''.'' @ hash
           \<and> length (catalogs m) = 2
           \<and> (\<forall>c\<in>set (catalogs m). \<exists>x. catalog_extra c = Some [x]
                  \<and> extra_name x = js ''genre''
                  \<and> options x = extractGenresFromData d
                  \<and> sorted (options x) \<and> distinct (options x)
                  \<and> set (options x) = allGenres d)"
proof -
  define gs where "gs = extractGenresFromData d"
  define m where "m = BASE_MANIFEST\<lparr> catalogs := map (withGenres gs) (catalogs BASE_MANIFEST),
                      manifest_id := manifest_id BASE_MANIFEST @ js ''.'' @ hash \<rparr>"
  have n: "js ''/manifest.json'' \<noteq> js ''/''" "js ''/manifest.json'' \<noteq> js ''/index.html''"
    by (simp_all add: js_def)
  have r: "route E hash (js ''/manifest.json'') = manifestRoute E hash"
    unfolding route_def using n by simp
  have h: "handler E req = (Inr (send (ManifestObj m) json 200), [cookie])"
    unfolding handler_def assms(2,3) r manifestRoute_def m_def gs_def
    using assms(1,4,5,6) by (simp add: Let_def)
  have i: "manifest_id m = js ''community.imdb-top-picks'' @ js ''.'' @ hash"
    by (simp add: m_def BASE_MANIFEST_def)
  have c: "catalogs m = map (withGenres gs) (catalogs BASE_MANIFEST)"
    by (simp add: m_def)
  have l: "length (catalogs m) = 2"
    unfolding c withGenres_base by simp
  have o: "\<forall>c\<in>set (catalogs m). \<exists>x. catalog_extra c = Some [x]
                  \<and> extra_name x = js ''genre''
                  \<and> options x = extractGenresFromData d
                  \<and> sorted (options x) \<and> distinct (options x)
                  \<and> set (options x) = allGenres d"
    unfolding c withGenres_base
    using extractGenres_facts [of d] by (simp add: gs_def genreExtra_def)
  show ?thesis using h i l o by blast
qed
lemma decode_YQ: "b64url_decode (js ''YQ'') = js ''a''"
  by (simp add: b64url_decode_def js_def replaceAll_def pad_closed Buffer_from_base64_def
      sextets_replicate_pad unbase64_def Buffer_toString_utf8_def toByte_def fromCharCode_def)

lemma path_YQ:
  "hashOf (js ''/YQ/manifest.json'') = js ''YQ''"
  "tailOf (js ''/YQ/manifest.json'') = js ''/manifest.json''"
  "hashOf (js ''/YQ/catalog/movie/imdb-top-picks/genre=action.json'') = js ''YQ''"
  "tailOf (js ''/YQ/catalog/movie/imdb-top-picks/genre=action.json'')
     = js ''/catalog/movie/imdb-top-picks/genre=action.json''"
  by (simp_all add: js_def segsOf_def hashOf_def tailOf_def includesChar_def)

lemma fetch_answering:
  "es \<noteq> [] \<Longrightarrow> fetchImdbData (answering es) c = Inr (Some \<lparr> data = Edges (Some es), errors = None \<rparr>)"
  by (simp add: fetchImdbData_def answering_def engine_def optErrors_def)

theorem manifest_with_credential_witness:
  "req_method \<lparr> req_method = js ''GET'', pathname = js ''/YQ/manifest.json'' \<rparr> \<noteq> js ''OPTIONS''
   \<and> cookieOf (js ''YQ'') = js ''a''
   \<and> (\<exists>m. handler (answering [sampleEdge (js ''tt1'') (js ''movie'') [js ''Drama'', js ''Action''],
                                  sampleEdge (js ''tt2'') (js ''tvSeries'') [js ''Action'']])
              \<lparr> req_method = js ''GET'', pathname = js ''/YQ/manifest.json'' \<rparr>
            = (Inr (send (ManifestObj m) json 200), [js ''a''])
          \<and> manifest_id m = js ''community.imdb-top-picks.YQ''
          \<and> (\<forall>c\<in>set (catalogs m). \<exists>x. catalog_extra c = Some [x]
                 \<and> options x = [js ''Action'', js ''Drama'']))"
proof -
  let ?es = "[sampleEdge (js ''tt1'') (js ''movie'') [js ''Drama'', js ''Action''],
              sampleEdge (js ''tt2'') (js ''tvSeries'') [js ''Action'']]"
  let ?d = "Some \<lparr> data = Edges (Some ?es), errors = None \<rparr>"
  let ?r = "\<lparr> req_method = js ''GET'', pathname = js ''/YQ/manifest.json'' \<rparr>"
  have a: "req_method ?r \<noteq> js ''OPTIONS''" by (simp add: js_def)
  have t: "tailOf (pathname ?r) = js ''/manifest.json''" by (simp add: path_YQ)
  have h: "hashOf (pathname ?r) = js ''YQ''" by (simp add: path_YQ)
  have c: "cookieOf (js ''YQ'') = js ''a''"
    unfolding cookieOf_def decode_YQ by (simp add: js_def)
  have n: "js ''a'' \<noteq> []" by (simp add: js_def)
  have f: "fetchImdbData (answering ?es) (js ''a'') = Inr ?d"
    by (rule fetch_answering) simp
  have g: "extractGenresFromData ?d = [js ''Action'', js ''Drama'']"
    by (simp add: extractGenresFromData_def optEdges_def addGenres_def edgeGenres_def setAdd_def
        sampleEdge_def js_def)
  have i: "js ''community.imdb-top-picks'' @ js ''.'' @ js ''YQ'' = js ''community.imdb-top-picks.YQ''"
    by (simp add: js_def)
  show ?thesis
    using a c manifest_with_credential [OF a t h c n f] unfolding g i by blast
qed

lemma stripJson_suffix: "stripJson (x @ js ''.json'') = x"
proof -
  have "suffix (js ''.json'') (x @ js ''.json'')" by (simp add: suffix_def)
  moreover have "length (js ''.json'') = 5" by (simp add: js_def)
  ultimately show ?thesis by (simp add: stripJson_def)
qed

lemma genre_extras_segment:
  assumes "47 \<notin> set ty" and "47 \<notin> set cid"
    and "g \<noteq> []" and "47 \<notin> set g" and "44 \<notin> set g" and "61 \<notin> set g"
  shows "parseExtrasFromPath
           (js ''/catalog/'' @ ty @ js ''/'' @ cid @ js ''/genre='' @ g @ js ''.json'')
           (js ''genre'') = Some g"
proof -
  let ?x = "js ''genre='' @ g"
  let ?seg = "?x @ js ''.json''"
  have n: "47 \<notin> set ?seg" "44 \<notin> set ?x" "(61::u16) \<notin> set (js ''genre'')"
    "(47::u16) \<notin> set []" "(47::u16) \<notin> set (js ''catalog'')"
    using assms by (simp_all add: js_def)
  have "js ''/catalog/'' @ ty @ js ''/'' @ cid @ js ''/genre='' @ g @ js ''.json''
          = [] @ 47 # (js ''catalog'' @ 47 # (ty @ 47 # (cid @ 47 # ?seg)))"
    by (simp add: js_def)
  then have p: "split 47 (js ''/catalog/'' @ ty @ js ''/'' @ cid @ js ''/genre='' @ g @ js ''.json'')
          = [[], js ''catalog'', ty, cid, ?seg]"
    by (simp only: split_append_sep [OF n(4)] split_append_sep [OF n(5)]
        split_append_sep [OF assms(1)] split_append_sep [OF assms(2)] split_no_sep [OF n(1)])
  have x: "?x = js ''genre'' @ 61 # g" by (simp add: js_def)
  have e: "split 61 ?x = [js ''genre'', g]"
    unfolding x by (simp only: split_append_sep [OF n(3)] split_no_sep [OF assms(6)])
  have k: "js ''genre'' \<noteq> []" "js ''genre'' \<noteq> js ''__proto__''" "?x \<noteq> []" "61 \<in> set ?x"
    by (simp_all add: js_def)
  have a: "addPair Map.empty ?x (js ''genre'') = Some g"
    unfolding addPair_def e using k assms(3) by (simp add: setProp_def)
  have sj: "stripJson (js ''genre='' @ g @ js ''.json'') = ?x"
    using stripJson_suffix [of ?x] by simp
  have at4: "at [a, b, c, d, e] 4 = Some e" for a b c d e :: jsstring
    by (simp add: at_def)
  have sp: "split 44 ?x = [?x]" by (rule split_no_sep [OF n(2)])
  show ?thesis
    unfolding parseExtrasFromPath_def p
    using k a by (simp add: Let_def at4 sj sp includesChar_def)
qed

lemma genreTexts_sample:
  "[] \<notin> set gs \<Longrightarrow>
     genreTexts (map (\<lambda>g. Genre (Some g)) gs) = Inr (map Some gs) \<and> truthy (map Some gs) = gs"
  by (induction gs) auto

lemma buildMeta_movie:
  assumes "i \<noteq> []" and "[] \<notin> set gs"
  shows "buildMeta (sampleEdge i (js ''movie'') gs) = Inr (Some (sampleMeta i (js ''movie'') gs))"
  using assms genreTexts_sample [OF assms(2)]
  by (simp add: buildMeta_def sampleEdge_def sampleMeta_def typeOf_def orElse_def) (simp add: js_def)

lemma buildMeta_series:
  assumes "i \<noteq> []" and "[] \<notin> set gs"
  shows "buildMeta (sampleEdge i (js ''tvSeries'') gs) = Inr (Some (sampleMeta i (js ''series'') gs))"
  using assms genreTexts_sample [OF assms(2)]
  by (simp add: buildMeta_def sampleEdge_def sampleMeta_def typeOf_def orElse_def)

text \<open>
  C6. For every catalog request that reaches a list of metas (credential with a
  non-empty cookie, recognised catalog id, successful fetch and mapping of the edges)
  and whose extras parse to a \<open>genre\<close> value \<open>g\<close>, the metas returned are exactly the
  items of the requested type that have a genre equal to \<open>g\<close> after \<open>toLowerCase\<close> on
  both sides, in the order of the edges; \<open>genre=action\<close> keeps an item with genre
  \<open>Action\<close> and drops one without it.
\<close>

theorem catalog_genre_filter:
  assumes "req_method req \<noteq> js ''OPTIONS''"
    and "hashOf (pathname req) = hash" and "tailOf (pathname req) = tail"
    and "startsWith tail (js ''/catalog/'')"
    and "at (split 47 tail) 3 = Some cid" and "startsWith cid (js ''imdb-top-picks'')"
    and "cookieOf hash = cookie" and "cookie \<noteq> []"
    and "fetchImdbData E cookie = Inr d" and "edgesOrThrow d = Inr es"
    and "mapMetas buildMeta es = Inr ms"
    and "parseExtrasFromPath tail (js ''genre'') = Some g"
  shows "handler E req =
           (Inr (send (MetasObj
                   (filter (\<lambda>m. Some (meta_type m) = at (split 47 tail) 2
                                \<and> (\<exists>gs. genres m = Some gs
                                      \<and> (\<exists>x\<in>set gs. toLowerCase E x = toLowerCase E g))) ms))
                 json 200), [cookie])"
proof -
  have m: "genreMatches E (toLowerCase E g) m
             \<longleftrightarrow> (\<exists>gs. genres m = Some gs \<and> (\<exists>x\<in>set gs. toLowerCase E x = toLowerCase E g))"
    for m
    by (cases "genres m") (simp_all add: genreMatches_def list_ex_iff)
  have c: "catalogMetas E cookie (at (split 47 tail) 2) (parseExtrasFromPath tail) =
             Inr (filter (\<lambda>m. Some (meta_type m) = at (split 47 tail) 2
                                \<and> (\<exists>gs. genres m = Some gs
                                      \<and> (\<exists>x\<in>set gs. toLowerCase E x = toLowerCase E g))) ms)"
    unfolding catalogMetas_def using assms(9-12) by (simp add: Let_def m cong: conj_cong)
  have "handler E req = catalogRoute E hash tail"
    using assms(1-4) by (simp add: handler_def route_catalog)
  then show ?thesis
    unfolding catalogRoute_def using assms(5-8) c by (simp add: Let_def)
qed

theorem catalog_genre_filter_witness:
  "parseExtrasFromPath (js ''/catalog/movie/imdb-top-picks/genre=action.json'') (js ''genre'')
     = Some (js ''action'')
   \<and> handler (answering [sampleEdge (js ''tt1'') (js ''movie'') [js ''Drama'', js ''Action''],
                          sampleEdge (js ''tt2'') (js ''tvSeries'') [js ''Action''],
                          sampleEdge (js ''tt3'') (js ''movie'') [js ''Comedy'']])
       \<lparr> req_method = js ''GET'',
         pathname = js ''/YQ/catalog/movie/imdb-top-picks/genre=action.json'' \<rparr>
     = (Inr (send (MetasObj [sampleMeta (js ''tt1'') (js ''movie'') [js ''Drama'', js ''Action'']])
               json 200), [js ''a''])"
proof -
  let ?es = "[sampleEdge (js ''tt1'') (js ''movie'') [js ''Drama'', js ''Action''],
              sampleEdge (js ''tt2'') (js ''tvSeries'') [js ''Action''],
              sampleEdge (js ''tt3'') (js ''movie'') [js ''Comedy'']]"
  let ?ms = "[sampleMeta (js ''tt1'') (js ''movie'') [js ''Drama'', js ''Action''],
              sampleMeta (js ''tt2'') (js ''series'') [js ''Action''],
              sampleMeta (js ''tt3'') (js ''movie'') [js ''Comedy'']]"
  let ?E = "answering ?es"
  let ?d = "Some \<lparr> data = Edges (Some ?es), errors = None \<rparr>"
  let ?tail = "js ''/catalog/movie/imdb-top-picks/genre=action.json''"
  let ?r = "\<lparr> req_method = js ''GET'',
             pathname = js ''/YQ/catalog/movie/imdb-top-picks/genre=action.json'' \<rparr>"
  have a: "req_method ?r \<noteq> js ''OPTIONS''" by (simp add: js_def)
  have h: "hashOf (pathname ?r) = js ''YQ''" and t: "tailOf (pathname ?r) = ?tail"
    by (simp_all add: js_def segsOf_def hashOf_def tailOf_def includesChar_def)
  have s: "startsWith ?tail (js ''/catalog/'')" by (simp add: js_def startsWith_def)
  have p: "split 47 ?tail = [[], js ''catalog'', js ''movie'', js ''imdb-top-picks'', js ''genre=action.json'']"
    by (simp add: js_def)
  have i: "at (split 47 ?tail) 3 = Some (js ''imdb-top-picks'')" by (simp add: p at_def)
  have i2: "at (split 47 ?tail) 2 = Some (js ''movie'')" by (simp add: p at_def)
  have sp: "startsWith (js ''imdb-top-picks'') (js ''imdb-top-picks'')" by (simp add: startsWith_def)
  have dq: "b64url_decode (js ''YQ'') = js ''a''"
    by (simp add: b64url_decode_def js_def replaceAll_def pad_closed Buffer_from_base64_def
        sextets_replicate_pad unbase64_def Buffer_toString_utf8_def toByte_def fromCharCode_def)
  have c: "cookieOf (js ''YQ'') = js ''a''" unfolding cookieOf_def dq by (simp add: js_def)
  have n: "js ''a'' \<noteq> []" by (simp add: js_def)
  have f: "fetchImdbData ?E (js ''a'') = Inr ?d"
    by (simp add: fetchImdbData_def answering_def engine_def optErrors_def)
  have e: "edgesOrThrow ?d = Inr ?es" by (simp add: edgesOrThrow_def)
  have ne: "js ''tt1'' \<noteq> []" "js ''tt2'' \<noteq> []" "js ''tt3'' \<noteq> []"
    "[] \<notin> set [js ''Drama'', js ''Action'']" "[] \<notin> set [js ''Action'']" "[] \<notin> set [js ''Comedy'']"
    by (simp_all add: js_def)
  have b: "mapMetas buildMeta ?es = Inr ?ms"
    by (simp add: buildMeta_movie [OF ne(1) ne(4)] buildMeta_series [OF ne(2) ne(5)]
        buildMeta_movie [OF ne(3) ne(6)])
  have x: "parseExtrasFromPath ?tail (js ''genre'') = Some (js ''action'')"
    by (simp add: parseExtrasFromPath_def js_def at_def stripJson_def suffix_def includesChar_def
        addPair_def setProp_def)
  have l: "toLowerCase ?E = asciiLower" by (simp add: answering_def engine_def)
  have lo: "asciiLower (js ''Drama'') = js ''drama''" "asciiLower (js ''Action'') = js ''action''"
    "asciiLower (js ''Comedy'') = js ''comedy''" "asciiLower (js ''action'') = js ''action''"
    by (simp_all add: asciiLower_def js_def)
  have ineq: "js ''drama'' \<noteq> js ''action''" "js ''comedy'' \<noteq> js ''action''"
    "js ''series'' \<noteq> js ''movie''"
    by (simp_all add: js_def)
  have "handler ?E ?r =
     (Inr (send (MetasObj [sampleMeta (js ''tt1'') (js ''movie'') [js ''Drama'', js ''Action'']])
               json 200), [js ''a''])"
    using catalog_genre_filter [OF a h t s i sp c n f e b x]
    unfolding i2 l by (simp add: sampleMeta_def lo ineq)
  with x show ?thesis by simp
qed

end
